theory Spec2Isabelle
  imports Complex_Main "HOL-Library.Sublist"
begin

section \<open>Intent classification of kast\_ai\_potente.py\<close>

text \<open>
  The development embeds \<open>load_model\<close> and \<open>get_intent\<close> of
  \<open>src/kast_ai_potente.py\<close>. The two module globals \<open>_model\<close> and
  \<open>_intent_cache\<close> become the fields of a state record that every function takes and
  returns. The calls that leave the program (constructing the SentenceTransformer, encoding a
  text, scoring two embeddings, writing a log line) are answered by an environment record, and
  each such call is appended to a trace kept in the state, so that "no embedding was computed"
  and "construction was attempted twice" are statements about the trace.
\<close>

subsection \<open>Strings\<close>

text \<open>
  A Python \<open>str\<close> is a sequence of Unicode code points; a code point is a natural number.
  \<open>ustr\<close> turns an ASCII literal into such a sequence; the accented letters of the source are
  written by their code points (243 o-acute, 227 a-tilde, 237 i-acute).
\<close>

type_synonym ustring = "nat list"

definition ustr :: "string \<Rightarrow> ustring" where
  "ustr cs = map of_char cs"

text \<open>\<open>str.isspace\<close> of one code point: the 29 code points Python strips.\<close>

definition isspace :: "nat \<Rightarrow> bool" where
  "isspace c \<longleftrightarrow>
     (9 \<le> c \<and> c \<le> 13) \<or> (28 \<le> c \<and> c \<le> 32) \<or> c = 133 \<or> c = 160 \<or> c = 5760 \<or>
     (8192 \<le> c \<and> c \<le> 8202) \<or> c = 8232 \<or> c = 8233 \<or> c = 8239 \<or> c = 8287 \<or> c = 12288"

text \<open>\<open>str.strip()\<close>: leading and trailing whitespace removed.\<close>

definition strip :: "ustring \<Rightarrow> ustring" where
  "strip q = rev (dropWhile isspace (rev (dropWhile isspace q)))"

text \<open>
  \<open>str.lower()\<close> is the case mapping of the Unicode database, which is not part of the
  source: it is the field \<open>str_lower\<close> of the environment below. \<open>latin1_lower\<close> is that
  mapping on the code points below 256 (the letters A to Z and 192 to 222 except the
  multiplication sign 215 move up by 32), used where a concrete environment is needed.
\<close>

definition latin1_lower :: "ustring \<Rightarrow> ustring" where
  "latin1_lower q =
     map (\<lambda>c. if (65 \<le> c \<and> c \<le> 90) \<or> (192 \<le> c \<and> c \<le> 222 \<and> c \<noteq> 215) then c + 32 else c) q"

text \<open>\<open>word in query\<close> on strings: \<open>word\<close> occurs in \<open>query\<close> as a contiguous block.\<close>

fun contains :: "ustring \<Rightarrow> ustring \<Rightarrow> bool" where
  "contains w [] = (w = [])"
| "contains w (c # cs) = (prefix w (c # cs) \<or> contains w cs)"

subsection \<open>Labels and keyword rules\<close>

definition unknown :: ustring where
  "unknown = ustr ''unknown''"

definition deposito :: ustring where
  "deposito = ustr ''dep'' @ [243] @ ustr ''sito''"

definition saldo :: ustring where
  "saldo = ustr ''saldo''"

definition cartao :: ustring where
  "cartao = ustr ''cart'' @ [227] @ ustr ''o''"

definition fees :: ustring where
  "fees = ustr ''fees''"

definition viagens :: ustring where
  "viagens = ustr ''viagens''"

definition suporte :: ustring where
  "suporte = ustr ''suporte''"

definition yield :: ustring where
  "yield = ustr ''yield''"

definition cashback :: ustring where
  "cashback = ustr ''cashback''"

text \<open>The list \<open>intents\<close> of the semantic path (line 77).\<close>

definition intents :: "ustring list" where
  "intents = [deposito, saldo, cartao, fees, viagens, suporte, yield, cashback]"

text \<open>
  The dict of trigger words of the fallback (lines 50 to 59). A Python dict iterates in insertion
  order, so it is an association list in the order the source writes it.
\<close>

definition keywords_dict :: "(ustring \<times> ustring list) list" where
  "keywords_dict =
    [(deposito, [ustr ''depositar'', deposito, ustr ''tx hash'', ustr ''adicionar fundos'']),
     (saldo, [ustr ''saldo'', ustr ''quanto tenho'', ustr ''balance'']),
     (cartao, [cartao, ustr ''card'', ustr ''kard'']),
     (fees, [ustr ''fees'', ustr ''taxas'', ustr ''custo'', ustr ''comiss'' @ [227] @ ustr ''o'']),
     (viagens, [ustr ''viagem'', ustr ''travel'', ustr ''fora pa'' @ [237] @ ustr ''s'']),
     (suporte, [ustr ''ajuda'', ustr ''suporte'', ustr ''human'', ustr ''ticket'']),
     (yield, [ustr ''yield'', ustr ''juros'', ustr ''apy'', ustr ''ganhar'']),
     (cashback, [ustr ''cashback'', ustr ''recompensa'', ustr ''pontos''])]"

text \<open>
  The loop of lines 60 to 63: the first label with \<open>any(word in query for word in words)\<close>
  is returned, \<open>'unknown'\<close> after the last one.
\<close>

fun keyword_scan :: "(ustring \<times> ustring list) list \<Rightarrow> ustring \<Rightarrow> ustring" where
  "keyword_scan [] query = unknown"
| "keyword_scan ((intent, words) # rest) query =
     (if list_ex (\<lambda>word. contains word query) words then intent else keyword_scan rest query)"

subsection \<open>State, environment and trace\<close>

text \<open>
  A raised exception, by the two things the handlers of the source ask of it:
  \<open>is_exception\<close> says whether it is an instance of class \<open>Exception\<close>, which is what
  \<open>except Exception\<close> catches (\<open>KeyboardInterrupt\<close> and \<open>SystemExit\<close> are not);
  \<open>str_error\<close> is what formatting it does, in \<open>f"...{e}"\<close> of line 40 and in
  \<open>str(e)\<close> of line 98: \<open>None\<close> when a string comes back, \<open>Some e'\<close> when its
  \<open>__str__\<close> raises \<open>e'\<close>.
\<close>

datatype error = Error (is_exception: bool) (str_error: "error option")

text \<open>An exception that a handler of the source catches and can log.\<close>

definition catchable :: "error \<Rightarrow> bool" where
  "catchable e \<longleftrightarrow> is_exception e \<and> str_error e = None"

text \<open>
  Three exceptions: an ordinary \<open>Exception\<close>; one outside class \<open>Exception\<close>, as
  \<open>KeyboardInterrupt\<close> is; and an \<open>Exception\<close> whose \<open>__str__\<close> raises.
\<close>

definition plain_error :: error where
  "plain_error = Error True None"

definition interrupt :: error where
  "interrupt = Error False None"

definition unprintable :: error where
  "unprintable = Error True (Some plain_error)"

datatype event =
    LogInfo
  | LogError
  | Construct
  | Encode ustring
  | CosSim

text \<open>\<open>model\<close> is \<open>_model\<close> (\<open>None\<close> as in Python), \<open>intent_cache\<close> is \<open>_intent_cache\<close>.\<close>

record 'm state =
  model :: "'m option"
  intent_cache :: "ustring \<rightharpoonup> ustring"
  trace :: "event list"

text \<open>
  The world during one call. \<open>construct\<close> is the outcome of importing and constructing the
  SentenceTransformer, \<open>import_util\<close> that of the two imports at the head of the
  \<open>try\<close> block of \<open>get_intent\<close>, \<open>encode\<close> is \<open>model.encode\<close> and \<open>cos_sim\<close>
  is \<open>util.cos_sim(...).item()\<close>. A score is a rational number: the finite floats are
  rationals and compare as such; the constant 0.62 of line 90 is \<open>62 / 100\<close>, and no float
  lies between the two. NaN is not modelled.
\<close>

record ('m, 'e) env =
  str_lower :: "ustring \<Rightarrow> ustring"
  construct :: "error + 'm"
  import_util :: "error + unit"
  encode :: "'m \<Rightarrow> ustring \<Rightarrow> error + 'e"
  cos_sim :: "'e \<Rightarrow> 'e \<Rightarrow> error + rat"

definition emit :: "event \<Rightarrow> 'm state \<Rightarrow> 'm state" where
  "emit ev s = s\<lparr>trace := trace s @ [ev]\<rparr>"

text \<open>The module as imported: lines 27 and 28.\<close>

definition init_state :: "'m state" where
  "init_state = \<lparr>model = None, intent_cache = Map.empty, trace = []\<rparr>"

subsection \<open>load\_model (lines 30 to 42)\<close>

text \<open>
  The result is \<open>Inr\<close> of the returned \<open>_model\<close>, or \<open>Inl\<close> of an exception that
  leaves the function. The \<open>except Exception\<close> clause of lines 39 to 41 does not catch an
  exception outside class \<open>Exception\<close>; one it catches is formatted into the log line
  first, and if that raises, the new exception leaves the function before anything is
  logged or assigned.
\<close>

definition load_model :: "('m, 'e) env \<Rightarrow> 'm state \<Rightarrow> (error + 'm option) \<times> 'm state" where
  "load_model env s =
     (case model s of
        Some m \<Rightarrow> (Inr (Some m), s)
      | None \<Rightarrow>
          (let s1 = emit Construct (emit LogInfo s) in
           case construct env of
             Inr m \<Rightarrow> (Inr (Some m), emit LogInfo (s1\<lparr>model := Some m\<rparr>))
           | Inl e \<Rightarrow>
               if is_exception e then
                 (case str_error e of
                    Some e' \<Rightarrow> (Inl e', s1)
                  | None \<Rightarrow> (Inr None, (emit LogError s1)\<lparr>model := None\<rparr>))
               else (Inl e, s1)))"

subsection \<open>get\_intent (lines 44 to 100)\<close>

text \<open>
  The loop of lines 83 to 88 over the remaining labels, with the running
  \<open>(best_score, best_intent)\<close>. An exception of \<open>encode\<close> or \<open>cos_sim\<close> leaves the loop.
\<close>

fun score_loop ::
  "('m, 'e) env \<Rightarrow> 'm \<Rightarrow> 'e \<Rightarrow> ustring list \<Rightarrow> rat \<times> ustring \<Rightarrow> 'm state \<Rightarrow>
     (error + rat \<times> ustring) \<times> 'm state" where
  "score_loop env m query_emb [] best s = (Inr best, s)"
| "score_loop env m query_emb (intent # rest) best s =
     (let s1 = emit (Encode intent) s in
      case encode env m intent of
        Inl e \<Rightarrow> (Inl e, s1)
      | Inr intent_emb \<Rightarrow>
          (let s2 = emit CosSim s1 in
           case cos_sim env query_emb intent_emb of
             Inl e \<Rightarrow> (Inl e, s2)
           | Inr score \<Rightarrow>
               score_loop env m query_emb rest
                 (if score > fst best then (score, intent) else best) s2))"

text \<open>
  The body of the \<open>try\<close> block, lines 70 to 95, on the normalised query: \<open>Inl\<close> is an
  exception raised inside the block, on its way to the \<open>except\<close> clause.
\<close>

definition semantic :: "('m, 'e) env \<Rightarrow> ustring \<Rightarrow> 'm state \<Rightarrow> (error + ustring) \<times> 'm state" where
  "semantic env query s =
     (case import_util env of
        Inl e \<Rightarrow> (Inl e, s)
      | Inr _ \<Rightarrow>
          (case load_model env s of
             (Inl e, s1) \<Rightarrow> (Inl e, s1)
           | (Inr None, s1) \<Rightarrow> (Inr unknown, s1)
           | (Inr (Some m), s1) \<Rightarrow>
               (let s2 = emit (Encode query) s1 in
                case encode env m query of
                  Inl e \<Rightarrow> (Inl e, s2)
                | Inr query_emb \<Rightarrow>
                    (case score_loop env m query_emb intents (- 1, unknown) s2 of
                       (Inl e, s3) \<Rightarrow> (Inl e, s3)
                     | (Inr (best_score, best_intent), s3) \<Rightarrow>
                         if best_score > 62 / 100
                         then (Inr best_intent,
                               s3\<lparr>intent_cache := (intent_cache s3)(query \<mapsto> best_intent)\<rparr>)
                         else (Inr unknown,
                               s3\<lparr>intent_cache := (intent_cache s3)(query \<mapsto> unknown)\<rparr>)))))"

text \<open>
  The \<open>except Exception as e\<close> clause of lines 97 to 100. An exception outside class
  \<open>Exception\<close> passes through. One that is caught is formatted by \<open>str(e)\<close> for the first
  log line; if that raises, the new exception leaves \<open>get_intent\<close>, since the clause is inside
  no \<open>try\<close>. Otherwise two error lines are written (\<open>traceback.format_exc\<close> guards its
  own formatting) and \<open>'unknown'\<close> is returned.
\<close>

definition handler :: "error \<Rightarrow> 'm state \<Rightarrow> (error + ustring) \<times> 'm state" where
  "handler e s =
     (if is_exception e then
        (case str_error e of
           Some e' \<Rightarrow> (Inl e', s)
         | None \<Rightarrow> (Inr unknown, emit LogError (emit LogError s)))
      else (Inl e, s))"

text \<open>
  \<open>get_intent\<close>: the result is \<open>Inr\<close> of the returned string, or \<open>Inl\<close> of an exception
  that reaches the caller. The first call of \<open>load_model\<close> (line 49) is outside the
  \<open>try\<close> block, so what it raises reaches the caller as it is.
\<close>

definition get_intent :: "('m, 'e) env \<Rightarrow> ustring \<Rightarrow> 'm state \<Rightarrow> (error + ustring) \<times> 'm state" where
  "get_intent env query0 s =
     (let query = strip (str_lower env query0) in
      case load_model env s of
        (Inl e, s1) \<Rightarrow> (Inl e, s1)
      | (Inr None, s1) \<Rightarrow> (Inr (keyword_scan keywords_dict query), s1)
      | (Inr (Some m), s1) \<Rightarrow>
          (case intent_cache s1 query of
             Some cached \<Rightarrow> (Inr cached, s1)
           | None \<Rightarrow>
               (case semantic env query s1 of
                  (Inr label, s2) \<Rightarrow> (Inr label, s2)
                | (Inl e, s2) \<Rightarrow> handler e s2)))"

text \<open>
  The exceptions a world can raise, and a world all of whose exceptions are instances of
  \<open>Exception\<close> that can be formatted.
\<close>

definition raises :: "('m, 'e) env \<Rightarrow> error \<Rightarrow> bool" where
  "raises env e \<longleftrightarrow>
     construct env = Inl e \<or> import_util env = Inl e \<or>
     (\<exists>m t. encode env m t = Inl e) \<or> (\<exists>a b. cos_sim env a b = Inl e)"

definition tame :: "('m, 'e) env \<Rightarrow> bool" where
  "tame env \<longleftrightarrow> (\<forall>e. raises env e \<longrightarrow> catchable e)"

text \<open>A sequence of calls of \<open>get_intent\<close>, each in its own world, and the state they leave.\<close>

fun run_calls :: "(('m, 'e) env \<times> ustring) list \<Rightarrow> 'm state \<Rightarrow> 'm state" where
  "run_calls [] s = s"
| "run_calls ((env, query0) # rest) s = run_calls rest (snd (get_intent env query0 s))"

text \<open>The results of such a sequence of calls, in order.\<close>

fun run_results :: "(('m, 'e) env \<times> ustring) list \<Rightarrow> 'm state \<Rightarrow> (error + ustring) list" where
  "run_results [] s = []"
| "run_results ((env, query0) # rest) s =
     fst (get_intent env query0 s) # run_results rest (snd (get_intent env query0 s))"

subsection \<open>Concrete worlds\<close>

text \<open>
  Worlds for running the functions on concrete inputs: the model handle is the unit value,
  the embedding of a text is the text itself, and lowercasing is \<open>latin1_lower\<close>.
  \<open>world c enc sim\<close> has the construction outcome \<open>c\<close>, the encoder \<open>enc\<close> and the
  similarity \<open>sim\<close>.
\<close>

definition world ::
  "error + unit \<Rightarrow> (ustring \<Rightarrow> error + ustring) \<Rightarrow> (ustring \<Rightarrow> ustring \<Rightarrow> error + rat) \<Rightarrow>
     (unit, ustring) env" where
  "world c enc sim =
     \<lparr>str_lower = latin1_lower, construct = c, import_util = Inr (),
      encode = (\<lambda>m. enc), cos_sim = sim\<rparr>"

text \<open>The model cannot be constructed: the attempt raises \<open>e\<close>.\<close>

definition unloadable :: "error \<Rightarrow> (unit, ustring) env" where
  "unloadable e = world (Inl e) Inr (\<lambda>a b. Inr 0)"

definition offline :: "(unit, ustring) env" where
  "offline = unloadable plain_error"

text \<open>The model loads and every pair of texts has similarity \<open>r\<close>.\<close>

definition const_sim :: "rat \<Rightarrow> (unit, ustring) env" where
  "const_sim r = world (Inr ()) Inr (\<lambda>a b. Inr r)"

text \<open>The model loads; \<open>saldo\<close> and \<open>cartao\<close> score 9/10 against any query, the rest 1/10.\<close>

definition tie_score :: "ustring \<Rightarrow> rat" where
  "tie_score l = (if l = saldo \<or> l = cartao then 9 / 10 else 1 / 10)"

definition tie_world :: "(unit, ustring) env" where
  "tie_world = world (Inr ()) Inr (\<lambda>a b. Inr (tie_score b))"

text \<open>The model loads, but encoding the text \<open>bad\<close> raises \<open>e\<close>; all similarities are 9/10.\<close>

definition raising :: "error \<Rightarrow> ustring \<Rightarrow> (unit, ustring) env" where
  "raising e bad = world (Inr ()) (\<lambda>t. if t = bad then Inl e else Inr t) (\<lambda>a b. Inr (9 / 10))"

definition faulty :: "ustring \<Rightarrow> (unit, ustring) env" where
  "faulty bad = raising plain_error bad"

text \<open>The model loads and encodes, but scoring against the label \<open>bad\<close> raises \<open>e\<close>.\<close>

definition unscorable :: "error \<Rightarrow> ustring \<Rightarrow> (unit, ustring) env" where
  "unscorable e bad = world (Inr ()) Inr (\<lambda>a b. if b = bad then Inl e else Inr (9 / 10))"

text \<open>The cache holds labels only: the invariant of every state the program reaches.\<close>

definition cache_ok :: "(ustring \<rightharpoonup> ustring) \<Rightarrow> bool" where
  "cache_ok c \<longleftrightarrow> ran c \<subseteq> set intents \<union> {unknown}"

section \<open>Basic facts\<close>

lemma load_model_loaded: "model s = Some m \<Longrightarrow> load_model env s = (Inr (Some m), s)"
  by (simp add: load_model_def)

lemma load_model_cache: "intent_cache (snd (load_model env s)) = intent_cache s"
  by (simp add: load_model_def emit_def Let_def split: option.split sum.split)

lemma load_model_returns_global:
  "fst (load_model env s) = Inr r \<Longrightarrow> model (snd (load_model env s)) = r"
  by (cases "construct env"; cases "model s")
     (auto simp add: load_model_def emit_def Let_def split: option.splits if_splits)

lemma load_model_None_iff:
  "fst (load_model env s) = Inr None \<longleftrightarrow>
     model s = None \<and> (\<exists>e. construct env = Inl e \<and> catchable e)"
  by (cases "construct env"; cases "model s")
     (auto simp add: load_model_def emit_def Let_def catchable_def split: option.splits)

lemma load_model_raises:
  "fst (load_model env s) = Inl e' \<Longrightarrow> \<exists>e. construct env = Inl e \<and> \<not> catchable e"
  by (cases "construct env"; cases "model s")
     (auto simp add: load_model_def emit_def Let_def catchable_def split: option.splits if_splits)

lemma load_model_trace_prefix: "prefix (trace s) (trace (snd (load_model env s)))"
  by (simp add: load_model_def emit_def Let_def split: option.split sum.split)

lemma score_loop_cache:
  "intent_cache (snd (score_loop env m qe ls best s)) = intent_cache s"
  by (induction ls arbitrary: best s) (simp_all add: emit_def Let_def split: sum.split)

lemma score_loop_model:
  "model (snd (score_loop env m qe ls best s)) = model s"
  by (induction ls arbitrary: best s) (simp_all add: emit_def Let_def split: sum.split)

lemma score_loop_trace_prefix:
  "prefix (trace s) (trace (snd (score_loop env m qe ls best s)))"
proof (induction ls arbitrary: best s)
  case Nil
  show ?case by simp
next
  case (Cons l ls)
  have a: "prefix (trace s) (trace (emit (Encode l) s))"
    by (simp add: emit_def)
  have b: "prefix (trace s) (trace (emit CosSim (emit (Encode l) s)))"
    by (simp add: emit_def)
  show ?case
  proof (cases "encode env m l")
    case (Inl e)
    then show ?thesis using a by (simp add: Let_def)
  next
    case (Inr ie)
    show ?thesis
    proof (cases "cos_sim env qe ie")
      case (Inl e)
      then show ?thesis using Inr b by (simp add: Let_def)
    next
      case (Inr sc)
      have "prefix (trace (emit CosSim (emit (Encode l) s)))
              (trace (snd (score_loop env m qe ls (if sc > fst best then (sc, l) else best)
                 (emit CosSim (emit (Encode l) s)))))"
        by (rule Cons.IH)
      then show ?thesis
        using \<open>encode env m l = Inr ie\<close> Inr b prefix_order.trans
        by (simp add: Let_def)
    qed
  qed
qed

lemma score_loop_best:
  assumes ok: "\<forall>l\<in>set ls. encode env m l = Inr (emb l) \<and> cos_sim env qe (emb l) = Inr (sc l)"
  shows "\<exists>b' l'. fst (score_loop env m qe ls (b, bl) s) = Inr (b', l') \<and> b \<le> b' \<and>
           (\<forall>l\<in>set ls. sc l \<le> b') \<and> (b' = b \<longrightarrow> l' = bl) \<and>
           (b < b' \<longrightarrow> (\<exists>k<length ls. ls ! k = l' \<and> sc l' = b' \<and> (\<forall>j<k. sc (ls ! j) < b')))"
  using ok
proof (induction ls arbitrary: b bl s)
  case Nil
  show ?case by simp
next
  case (Cons x xs)
  have ex: "encode env m x = Inr (emb x)" and cx: "cos_sim env qe (emb x) = Inr (sc x)"
    using Cons.prems by simp_all
  have okxs: "\<forall>l\<in>set xs. encode env m l = Inr (emb l) \<and> cos_sim env qe (emb l) = Inr (sc l)"
    using Cons.prems by simp
  let ?s2 = "emit CosSim (emit (Encode x) s)"
  show ?case
  proof (cases "b < sc x")
    case True
    have step: "score_loop env m qe (x # xs) (b, bl) s = score_loop env m qe xs (sc x, x) ?s2"
      using ex cx True by (simp add: Let_def)
    obtain b' l' where r: "fst (score_loop env m qe xs (sc x, x) ?s2) = Inr (b', l')"
      and ge: "sc x \<le> b'" and ub: "\<forall>l\<in>set xs. sc l \<le> b'"
      and same: "b' = sc x \<longrightarrow> l' = x"
      and pos: "sc x < b' \<longrightarrow> (\<exists>k<length xs. xs ! k = l' \<and> sc l' = b' \<and> (\<forall>j<k. sc (xs ! j) < b'))"
      using Cons.IH [OF okxs, of "sc x" x ?s2] by blast
    have idx: "\<exists>k<length (x # xs). (x # xs) ! k = l' \<and> sc l' = b' \<and> (\<forall>j<k. sc ((x # xs) ! j) < b')"
    proof (cases "b' = sc x")
      case True
      then have "(x # xs) ! 0 = l' \<and> sc l' = b'" using same by simp
      then show ?thesis by (intro exI [of _ 0]) simp
    next
      case False
      then have "sc x < b'" using ge by simp
      then obtain k where k: "k < length xs" "xs ! k = l'" "sc l' = b'" "\<forall>j<k. sc (xs ! j) < b'"
        using pos by blast
      have "\<forall>j<Suc k. sc ((x # xs) ! j) < b'"
        using k(4) \<open>sc x < b'\<close> by (simp add: nth_Cons' )
      then show ?thesis using k by (intro exI [of _ "Suc k"]) simp
    qed
    have "b \<le> b'" using True ge by simp
    moreover have "\<forall>l\<in>set (x # xs). sc l \<le> b'" using ub ge by simp
    moreover have "b' = b \<longrightarrow> l' = bl" using True ge by simp
    ultimately show ?thesis
      unfolding step using r idx by blast
  next
    case False
    have step: "score_loop env m qe (x # xs) (b, bl) s = score_loop env m qe xs (b, bl) ?s2"
      using ex cx False by (simp add: Let_def)
    obtain b' l' where r: "fst (score_loop env m qe xs (b, bl) ?s2) = Inr (b', l')"
      and ge: "b \<le> b'" and ub: "\<forall>l\<in>set xs. sc l \<le> b'"
      and same: "b' = b \<longrightarrow> l' = bl"
      and pos: "b < b' \<longrightarrow> (\<exists>k<length xs. xs ! k = l' \<and> sc l' = b' \<and> (\<forall>j<k. sc (xs ! j) < b'))"
      using Cons.IH [OF okxs, of b bl ?s2] by blast
    have idx: "b < b' \<longrightarrow> (\<exists>k<length (x # xs). (x # xs) ! k = l' \<and> sc l' = b' \<and> (\<forall>j<k. sc ((x # xs) ! j) < b'))"
    proof
      assume lt: "b < b'"
      then obtain k where k: "k < length xs" "xs ! k = l'" "sc l' = b'" "\<forall>j<k. sc (xs ! j) < b'"
        using pos by blast
      have "sc x < b'" using False lt by simp
      then have "\<forall>j<Suc k. sc ((x # xs) ! j) < b'"
        using k(4) by (simp add: nth_Cons' )
      then show "\<exists>k<length (x # xs). (x # xs) ! k = l' \<and> sc l' = b' \<and> (\<forall>j<k. sc ((x # xs) ! j) < b')"
        using k by (intro exI [of _ "Suc k"]) simp
    qed
    have "sc x \<le> b'" using False ge by simp
    then have "\<forall>l\<in>set (x # xs). sc l \<le> b'" using ub by simp
    then show ?thesis
      unfolding step using r ge same idx by blast
  qed
qed

text \<open>Every non-empty list has a first position where a score is largest.\<close>

lemma first_argmax:
  fixes sc :: "'a \<Rightarrow> rat"
  assumes "ls \<noteq> []"
  shows "\<exists>k<length ls. (\<forall>j<length ls. sc (ls ! j) \<le> sc (ls ! k)) \<and> (\<forall>j<k. sc (ls ! j) < sc (ls ! k))"
proof -
  define M where "M = Max (sc ` set ls)"
  have fin: "finite (sc ` set ls)" by simp
  have ne: "sc ` set ls \<noteq> {}" using assms by simp
  have "M \<in> sc ` set ls" unfolding M_def using fin ne by (rule Max_in)
  then have ex: "\<exists>k. k < length ls \<and> sc (ls ! k) = M"
    by (auto simp add: in_set_conv_nth)
  define k where "k = (LEAST k. k < length ls \<and> sc (ls ! k) = M)"
  have kp: "k < length ls \<and> sc (ls ! k) = M"
    unfolding k_def using ex by (rule LeastI_ex)
  have le: "\<forall>j<length ls. sc (ls ! j) \<le> M"
    unfolding M_def using fin by (simp add: Max_ge)
  have "\<forall>j<k. sc (ls ! j) < M"
  proof (intro allI impI)
    fix j assume jk: "j < k"
    then have jl: "j < length ls" using kp by simp
    have "sc (ls ! j) \<noteq> M"
    proof
      assume "sc (ls ! j) = M"
      then have "k \<le> j" unfolding k_def using jl by (intro Least_le) simp
      then show False using jk by simp
    qed
    then show "sc (ls ! j) < M" using le jl by (simp add: less_le)
  qed
  then show ?thesis using kp le by auto
qed


lemma score_loop_label:
  "fst (score_loop env m qe ls best s) = Inr (b', l') \<Longrightarrow> l' = snd best \<or> l' \<in> set ls"
proof (induction ls arbitrary: best s)
  case Nil
  then show ?case by auto
next
  case (Cons x xs)
  show ?case
  proof (cases "encode env m x")
    case (Inl e)
    then show ?thesis using Cons.prems by (simp add: Let_def)
  next
    case (Inr ie)
    show ?thesis
    proof (cases "cos_sim env qe ie")
      case (Inl e)
      then show ?thesis using Cons.prems Inr by (simp add: Let_def)
    next
      case sc: (Inr score)
      let ?nb = "if score > fst best then (score, x) else best"
      have "fst (score_loop env m qe xs ?nb (emit CosSim (emit (Encode x) s))) = Inr (b', l')"
        using Cons.prems Inr sc by (simp add: Let_def)
      then have "l' = snd ?nb \<or> l' \<in> set xs" by (rule Cons.IH)
      then show ?thesis by (auto split: if_splits)
    qed
  qed
qed

lemma score_loop_raises:
  "fst (score_loop env m qe ls best s) = Inl e \<Longrightarrow> raises env e"
proof (induction ls arbitrary: best s)
  case Nil
  then show ?case by simp
next
  case (Cons x xs)
  show ?case
  proof (cases "encode env m x")
    case (Inl e1)
    then have "e1 = e" using Cons.prems by (simp add: Let_def)
    then show ?thesis using Inl by (auto simp add: raises_def)
  next
    case (Inr ie)
    show ?thesis
    proof (cases "cos_sim env qe ie")
      case (Inl e1)
      then have "e1 = e" using Cons.prems Inr by (simp add: Let_def)
      then show ?thesis using Inl by (auto simp add: raises_def)
    next
      case sc: (Inr score)
      have "fst (score_loop env m qe xs (if score > fst best then (score, x) else best)
                   (emit CosSim (emit (Encode x) s))) = Inl e"
        using Cons.prems Inr sc by (simp add: Let_def)
      then show ?thesis by (rule Cons.IH)
    qed
  qed
qed

text \<open>The try block when the model is loaded, with the second \<open>load_model\<close> resolved.\<close>

lemma semantic_loaded:
  assumes "model s = Some m"
  shows "semantic env q s =
     (case import_util env of
        Inl e \<Rightarrow> (Inl e, s)
      | Inr _ \<Rightarrow>
         (case encode env m q of
            Inl e \<Rightarrow> (Inl e, emit (Encode q) s)
          | Inr qe \<Rightarrow>
             (case score_loop env m qe intents (- 1, unknown) (emit (Encode q) s) of
                (Inl e, s3) \<Rightarrow> (Inl e, s3)
              | (Inr (bs, bi), s3) \<Rightarrow>
                  (Inr (if bs > 62 / 100 then bi else unknown),
                   s3\<lparr>intent_cache := (intent_cache s3)(q \<mapsto> (if bs > 62 / 100 then bi else unknown))\<rparr>))))"
  using assms
  by (simp add: semantic_def load_model_loaded Let_def split: sum.split prod.split)

lemma semantic_model:
  assumes "model s = Some m"
  shows "model (snd (semantic env q s)) = Some m"
proof (cases "import_util env")
  case (Inl e)
  then show ?thesis using assms by (simp add: semantic_loaded [OF assms])
next
  case iu: (Inr u)
  show ?thesis
  proof (cases "encode env m q")
    case (Inl e)
    then show ?thesis using assms iu by (simp add: semantic_loaded [OF assms] emit_def)
  next
    case (Inr qe)
    let ?s2 = "emit (Encode q) s"
    obtain r s3 where sl: "score_loop env m qe intents (- 1, unknown) ?s2 = (r, s3)"
      by (cases "score_loop env m qe intents (- 1, unknown) ?s2")
    have "model s3 = model ?s2"
      using score_loop_model [of env m qe intents "(- 1, unknown)" ?s2] sl by simp
    then have m3: "model s3 = Some m" using assms by (simp add: emit_def)
    show ?thesis
      using iu Inr sl m3
      by (cases r) (simp_all add: semantic_loaded [OF assms] split: prod.split)
  qed
qed

lemma semantic_outcome:
  assumes "model s = Some m"
  shows "(\<exists>e. fst (semantic env q s) = Inl e \<and> intent_cache (snd (semantic env q s)) = intent_cache s) \<or>
         (\<exists>l. fst (semantic env q s) = Inr l \<and> l \<in> set intents \<union> {unknown} \<and>
              intent_cache (snd (semantic env q s)) = (intent_cache s)(q \<mapsto> l))"
proof (cases "import_util env")
  case (Inl e)
  then show ?thesis by (simp add: semantic_loaded [OF assms])
next
  case iu: (Inr u)
  show ?thesis
  proof (cases "encode env m q")
    case (Inl e)
    then show ?thesis using iu by (simp add: semantic_loaded [OF assms] emit_def)
  next
    case (Inr qe)
    let ?s2 = "emit (Encode q) s"
    obtain r s3 where sl: "score_loop env m qe intents (- 1, unknown) ?s2 = (r, s3)"
      by (cases "score_loop env m qe intents (- 1, unknown) ?s2")
    have "intent_cache s3 = intent_cache ?s2"
      using score_loop_cache [of env m qe intents "(- 1, unknown)" ?s2] sl by simp
    then have c3: "intent_cache s3 = intent_cache s" by (simp add: emit_def)
    show ?thesis
    proof (cases r)
      case (Inl e)
      then show ?thesis using iu Inr sl c3 by (simp add: semantic_loaded [OF assms])
    next
      case (Inr best)
      obtain bs bi where best: "best = (bs, bi)" by (cases best)
      have "fst (score_loop env m qe intents (- 1, unknown) ?s2) = Inr (bs, bi)"
        using sl Inr best by simp
      then have "bi = snd (- 1 :: rat, unknown) \<or> bi \<in> set intents"
        by (rule score_loop_label)
      then have lab: "(if bs > 62 / 100 then bi else unknown) \<in> set intents \<union> {unknown}"
        by auto
      show ?thesis
        using iu \<open>encode env m q = Inr qe\<close> sl Inr best c3 lab
        by (simp add: semantic_loaded [OF assms])
    qed
  qed
qed

lemma semantic_raises:
  assumes "model s = Some m" and "fst (semantic env q s) = Inl e"
  shows "raises env e"
proof (cases "import_util env")
  case (Inl e1)
  then have "e1 = e" using assms(2) by (simp add: semantic_loaded [OF assms(1)])
  then show ?thesis using Inl by (simp add: raises_def)
next
  case iu: (Inr u)
  show ?thesis
  proof (cases "encode env m q")
    case (Inl e1)
    then have "e1 = e" using assms(2) iu by (simp add: semantic_loaded [OF assms(1)])
    then show ?thesis using Inl by (auto simp add: raises_def)
  next
    case (Inr qe)
    let ?s2 = "emit (Encode q) s"
    obtain r s3 where sl: "score_loop env m qe intents (- 1, unknown) ?s2 = (r, s3)"
      by (cases "score_loop env m qe intents (- 1, unknown) ?s2")
    have "r = Inl e"
      using assms(2) iu Inr sl
      by (cases r) (simp_all add: semantic_loaded [OF assms(1)] split: prod.splits)
    then have "fst (score_loop env m qe intents (- 1, unknown) ?s2) = Inl e" using sl by simp
    then show ?thesis by (rule score_loop_raises)
  qed
qed

lemma handler_cache: "intent_cache (snd (handler e s)) = intent_cache s"
  by (simp add: handler_def emit_def split: option.split)

lemma handler_model: "model (snd (handler e s)) = model s"
  by (simp add: handler_def emit_def split: option.split)

lemma handler_catchable: "catchable e \<Longrightarrow> handler e s = (Inr unknown, emit LogError (emit LogError s))"
  by (simp add: handler_def catchable_def)

lemma handler_label: "fst (handler e s) = Inr l \<Longrightarrow> l = unknown"
  by (auto simp add: handler_def split: if_splits option.splits)

lemma handler_trace: "prefix (trace s) (trace (snd (handler e s)))"
  by (simp add: handler_def emit_def split: option.split)

lemma get_intent_keyword:
  assumes "fst (load_model env s) = Inr None"
  shows "get_intent env q0 s =
           (Inr (keyword_scan keywords_dict (strip (str_lower env q0))), snd (load_model env s))"
  using assms by (cases "load_model env s") (simp add: get_intent_def)

lemma get_intent_hit:
  assumes "model s = Some m" and "intent_cache s (strip (str_lower env q0)) = Some l"
  shows "get_intent env q0 s = (Inr l, s)"
  using assms by (simp add: get_intent_def load_model_loaded)

lemma get_intent_miss:
  assumes "fst (load_model env s) = Inr (Some m)"
    and "intent_cache s (strip (str_lower env q0)) = None"
  shows "get_intent env q0 s =
           (case semantic env (strip (str_lower env q0)) (snd (load_model env s)) of
              (Inr label, s2) \<Rightarrow> (Inr label, s2)
            | (Inl e, s2) \<Rightarrow> handler e s2)"
proof -
  obtain s1 where lm: "load_model env s = (Inr (Some m), s1)"
    using assms(1) by (cases "load_model env s") simp
  have "intent_cache s1 = intent_cache s"
    using load_model_cache [of env s] lm by simp
  then show ?thesis using lm assms(2) by (simp add: get_intent_def)
qed

lemma get_intent_raised_in_load:
  assumes "fst (load_model env s) = Inl e"
  shows "get_intent env q0 s = (Inl e, snd (load_model env s))"
  using assms by (cases "load_model env s") (simp add: get_intent_def)

text \<open>In a world whose exceptions can all be caught and logged, a call returns.\<close>

lemma get_intent_returns:
  assumes "tame env"
  shows "\<exists>l. fst (get_intent env q0 s) = Inr l"
proof -
  let ?q = "strip (str_lower env q0)"
  obtain r s1 where lm: "load_model env s = (r, s1)" by (cases "load_model env s")
  show ?thesis
  proof (cases r)
    case (Inl e')
    then have "fst (load_model env s) = Inl e'" using lm by simp
    then obtain e where "construct env = Inl e" "\<not> catchable e"
      using load_model_raises by blast
    then have False using assms by (auto simp add: tame_def raises_def)
    then show ?thesis ..
  next
    case (Inr mo)
    show ?thesis
    proof (cases mo)
      case None
      then show ?thesis using lm Inr by (simp add: get_intent_keyword)
    next
      case (Some m)
      have m1: "model s1 = Some m" using load_model_returns_global [of env s "Some m"] lm Inr Some by simp
      have c1: "intent_cache s1 = intent_cache s" using load_model_cache [of env s] lm by simp
      show ?thesis
      proof (cases "intent_cache s ?q")
        case hit: (Some l)
        then show ?thesis using lm Inr Some c1 by (simp add: get_intent_def)
      next
        case None
        have gi: "get_intent env q0 s =
           (case semantic env ?q s1 of
              (Inr label, s2) \<Rightarrow> (Inr label, s2)
            | (Inl e, s2) \<Rightarrow> handler e s2)"
          using get_intent_miss [of env s m q0] lm Inr Some None by simp
        obtain x s2 where sem: "semantic env ?q s1 = (x, s2)" by (cases "semantic env ?q s1")
        show ?thesis
        proof (cases x)
          case (Inl e)
          then have "raises env e" using semantic_raises [OF m1, of env ?q e] sem by simp
          then have "catchable e" using assms by (simp add: tame_def)
          then show ?thesis using gi sem Inl by (simp add: handler_catchable)
        next
          case (Inr l)
          then show ?thesis using gi sem by simp
        qed
      qed
    qed
  qed
qed

lemma get_intent_model:
  assumes "model s = Some m"
  shows "model (snd (get_intent env q0 s)) = Some m"
proof (cases "intent_cache s (strip (str_lower env q0))")
  case (Some l)
  then show ?thesis using assms by (simp add: get_intent_hit)
next
  case None
  let ?q = "strip (str_lower env q0)"
  have lm: "load_model env s = (Inr (Some m), s)" using assms by (rule load_model_loaded)
  obtain r s2 where sem: "semantic env ?q s = (r, s2)" by (cases "semantic env ?q s")
  have "model s2 = Some m" using semantic_model [OF assms, of env ?q] sem by simp
  then show ?thesis
    using lm None sem by (cases r) (simp_all add: get_intent_def handler_model)
qed

text \<open>What a call does to the cache: nothing, or one new entry for the normalised query.\<close>

lemma get_intent_cache_effect:
  "intent_cache (snd (get_intent env q0 s)) = intent_cache s \<or>
   (intent_cache s (strip (str_lower env q0)) = None \<and>
    (\<exists>m. fst (load_model env s) = Inr (Some m)) \<and>
    (\<exists>l. fst (get_intent env q0 s) = Inr l \<and> l \<in> set intents \<union> {unknown} \<and>
       intent_cache (snd (get_intent env q0 s)) = (intent_cache s)(strip (str_lower env q0) \<mapsto> l)))"
proof -
  let ?q = "strip (str_lower env q0)"
  obtain r s1 where lm: "load_model env s = (r, s1)" by (cases "load_model env s")
  have c1: "intent_cache s1 = intent_cache s" using load_model_cache [of env s] lm by simp
  show ?thesis
  proof (cases r)
    case (Inl e)
    then show ?thesis using lm c1 by (simp add: get_intent_def)
  next
    case (Inr mo)
    show ?thesis
    proof (cases mo)
      case None
      then show ?thesis using lm Inr c1 by (simp add: get_intent_def)
    next
      case (Some m)
      have m1: "model s1 = Some m"
        using load_model_returns_global [of env s "Some m"] lm Inr Some by simp
      show ?thesis
      proof (cases "intent_cache s ?q")
        case hit: (Some l)
        then show ?thesis using lm c1 Inr Some by (simp add: get_intent_def)
      next
        case None
        obtain x s2 where sem: "semantic env ?q s1 = (x, s2)" by (cases "semantic env ?q s1")
        have gi: "get_intent env q0 s =
            (case x of Inr label \<Rightarrow> (Inr label, s2) | Inl e \<Rightarrow> handler e s2)"
          using lm Inr Some None c1 sem by (simp add: get_intent_def split: sum.split)
        from semantic_outcome [OF m1, of env ?q] sem
        consider (err) e where "x = Inl e" "intent_cache s2 = intent_cache s1"
          | (ok) l where "x = Inr l" "l \<in> set intents \<union> {unknown}"
                   "intent_cache s2 = (intent_cache s1)(?q \<mapsto> l)"
          by auto
        then show ?thesis
        proof cases
          case err
          then have "intent_cache (snd (get_intent env q0 s)) = intent_cache s"
            using gi c1 by (simp add: handler_cache)
          then show ?thesis ..
        next
          case ok
          then show ?thesis using gi c1 None lm Inr Some by simp
        qed
      qed
    qed
  qed
qed

lemma get_intent_keeps_entry:
  assumes "intent_cache s k = Some v"
  shows "intent_cache (snd (get_intent env q0 s)) k = Some v"
  using get_intent_cache_effect [of env q0 s] assms by (auto simp add: fun_upd_def)

lemma run_calls_model:
  "model s = Some m \<Longrightarrow> model (run_calls cs s) = Some m"
  by (induction cs arbitrary: s) (auto simp add: get_intent_model)

lemma run_calls_keeps_entry:
  "intent_cache s k = Some v \<Longrightarrow> intent_cache (run_calls cs s) k = Some v"
  by (induction cs arbitrary: s) (auto simp add: get_intent_keeps_entry)

lemmas label_defs = unknown_def deposito_def saldo_def cartao_def fees_def viagens_def
  suporte_def yield_def cashback_def ustr_def

lemmas eval_defs = get_intent_def load_model_def semantic_def handler_def world_def
  unloadable_def raising_def unscorable_def plain_error_def interrupt_def unprintable_def
  init_state_def emit_def intents_def strip_def latin1_lower_def isspace_def Let_def

lemma contains_iff_sublist: "contains w q \<longleftrightarrow> sublist w q"
  by (induction q) (simp_all add: sublist_Cons_right)

lemma keyword_scan_first:
  "(\<exists>k<length rules. keyword_scan rules q = fst (rules ! k) \<and>
        (\<exists>w\<in>set (snd (rules ! k)). sublist w q) \<and>
        (\<forall>j<k. \<forall>w\<in>set (snd (rules ! j)). \<not> sublist w q)) \<or>
   (keyword_scan rules q = unknown \<and> (\<forall>j<length rules. \<forall>w\<in>set (snd (rules ! j)). \<not> sublist w q))"
proof (induction rules)
  case Nil
  show ?case by simp
next
  case (Cons r rules)
  obtain intent ws where r: "r = (intent, ws)" by (cases r)
  show ?case
  proof (cases "\<exists>w\<in>set ws. sublist w q")
    case True
    then have "keyword_scan (r # rules) q = fst ((r # rules) ! 0) \<and>
        (\<exists>w\<in>set (snd ((r # rules) ! 0)). sublist w q)"
      by (simp add: r list_ex_iff contains_iff_sublist)
    then show ?thesis by (intro disjI1 exI [of _ 0]) simp
  next
    case False
    then have nomatch: "\<forall>w\<in>set ws. \<not> sublist w q" by simp
    have step: "keyword_scan (r # rules) q = keyword_scan rules q"
      using False by (simp add: r list_ex_iff contains_iff_sublist)
    from Cons.IH show ?thesis
    proof
      assume "\<exists>k<length rules. keyword_scan rules q = fst (rules ! k) \<and>
        (\<exists>w\<in>set (snd (rules ! k)). sublist w q) \<and>
        (\<forall>j<k. \<forall>w\<in>set (snd (rules ! j)). \<not> sublist w q)"
      then obtain k where k: "k < length rules" "keyword_scan rules q = fst (rules ! k)"
        "\<exists>w\<in>set (snd (rules ! k)). sublist w q"
        "\<forall>j<k. \<forall>w\<in>set (snd (rules ! j)). \<not> sublist w q"
        by blast
      have "\<forall>j<Suc k. \<forall>w\<in>set (snd ((r # rules) ! j)). \<not> sublist w q"
      proof (intro allI impI)
        fix j assume "j < Suc k"
        then show "\<forall>w\<in>set (snd ((r # rules) ! j)). \<not> sublist w q"
          using k(4) nomatch by (cases j) (simp_all add: r)
      qed
      then have "Suc k < length (r # rules) \<and> keyword_scan (r # rules) q = fst ((r # rules) ! Suc k) \<and>
        (\<exists>w\<in>set (snd ((r # rules) ! Suc k)). sublist w q) \<and>
        (\<forall>j<Suc k. \<forall>w\<in>set (snd ((r # rules) ! j)). \<not> sublist w q)"
        using k step by simp
      then show ?thesis by blast
    next
      assume a: "keyword_scan rules q = unknown \<and>
         (\<forall>j<length rules. \<forall>w\<in>set (snd (rules ! j)). \<not> sublist w q)"
      have "\<forall>j<length (r # rules). \<forall>w\<in>set (snd ((r # rules) ! j)). \<not> sublist w q"
      proof (intro allI impI)
        fix j assume "j < length (r # rules)"
        then show "\<forall>w\<in>set (snd ((r # rules) ! j)). \<not> sublist w q"
          using a nomatch by (cases j) (simp_all add: r)
      qed
      then show ?thesis using a step by simp
    qed
  qed
qed

lemma keyword_labels: "map fst keywords_dict = intents"
  by (simp add: keywords_dict_def intents_def)

section \<open>Claim C1: failed provisioning is retried\<close>

text \<open>
  C1 says that after one failed attempt to construct the embedding model every later call of
  \<open>load_model\<close> returns absence without attempting construction again. The source records
  a failure by writing \<open>None\<close> to \<open>_model\<close>, which is also the value that means "not yet
  tried", so the next call constructs again. In a world where construction fails, two calls
  of \<open>load_model\<close> from the initial state both return \<open>None\<close> and the trace holds two
  construction attempts; and if the world has changed in between, the second call returns
  the model.
\<close>

theorem load_model_retries_after_failure:
  "fst (load_model offline init_state) = Inr None \<and>
   fst (load_model offline (snd (load_model offline init_state))) = Inr None \<and>
   trace (snd (load_model offline init_state)) = [LogInfo, Construct, LogError] \<and>
   trace (snd (load_model offline (snd (load_model offline init_state)))) =
     [LogInfo, Construct, LogError, LogInfo, Construct, LogError] \<and>
   fst (load_model (const_sim 0) (snd (load_model offline init_state))) = Inr (Some ())"
  by (simp add: offline_def const_sim_def eval_defs)

section \<open>Claim C5: the keyword path\<close>

text \<open>
  C5: when the model is unavailable (\<open>load_model\<close> returns \<open>None\<close> in this call),
  \<open>get_intent\<close> returns without raising; the value is the label of the first rule, in the
  order of the source, one of whose trigger words occurs in the normalised query, and
  \<open>'unknown'\<close> when no trigger of any rule occurs. The call leaves \<open>_intent_cache\<close>
  and \<open>_model\<close> as they were, and its result is the same whatever the cache holds.
\<close>

theorem keyword_path_first_match:
  assumes "fst (load_model env s) = Inr None"
  shows "\<exists>r s'. get_intent env q0 s = (Inr r, s') \<and>
           intent_cache s' = intent_cache s \<and> model s' = None \<and>
           (\<forall>c. fst (get_intent env q0 (s\<lparr>intent_cache := c\<rparr>)) = Inr r) \<and>
           ((\<exists>k<length keywords_dict. r = intents ! k \<and>
               (\<exists>w\<in>set (snd (keywords_dict ! k)). sublist w (strip (str_lower env q0))) \<and>
               (\<forall>j<k. \<forall>w\<in>set (snd (keywords_dict ! j)). \<not> sublist w (strip (str_lower env q0)))) \<or>
            (r = unknown \<and>
               (\<forall>j<length keywords_dict. \<forall>w\<in>set (snd (keywords_dict ! j)).
                   \<not> sublist w (strip (str_lower env q0)))))"
proof -
  let ?q = "strip (str_lower env q0)"
  let ?r = "keyword_scan keywords_dict ?q"
  let ?s' = "snd (load_model env s)"
  have gi: "get_intent env q0 s = (Inr ?r, ?s')"
    using assms by (rule get_intent_keyword)
  have c: "intent_cache ?s' = intent_cache s" by (rule load_model_cache)
  have m: "model ?s' = None" using assms by (rule load_model_returns_global)
  have indep: "\<forall>c. fst (get_intent env q0 (s\<lparr>intent_cache := c\<rparr>)) = Inr ?r"
  proof
    fix c
    have "fst (load_model env (s\<lparr>intent_cache := c\<rparr>)) = Inr None"
      using assms by (simp add: load_model_None_iff)
    then show "fst (get_intent env q0 (s\<lparr>intent_cache := c\<rparr>)) = Inr ?r"
      by (simp add: get_intent_keyword)
  qed
  have nth: "\<And>k. k < length keywords_dict \<Longrightarrow> fst (keywords_dict ! k) = intents ! k"
    using keyword_labels by (metis nth_map)
  have "(\<exists>k<length keywords_dict. ?r = intents ! k \<and>
               (\<exists>w\<in>set (snd (keywords_dict ! k)). sublist w ?q) \<and>
               (\<forall>j<k. \<forall>w\<in>set (snd (keywords_dict ! j)). \<not> sublist w ?q)) \<or>
            (?r = unknown \<and>
               (\<forall>j<length keywords_dict. \<forall>w\<in>set (snd (keywords_dict ! j)). \<not> sublist w ?q))"
    using keyword_scan_first [of keywords_dict ?q] nth by metis
  then show ?thesis using gi c m indep by blast
qed

theorem keyword_path_first_match_witness:
  "fst (load_model offline init_state) = Inr None \<and>
   fst (get_intent offline (ustr ''Quero fazer um dep'' @ [243] @ ustr ''sito'') init_state) = Inr deposito \<and>
   fst (get_intent offline (ustr ''xyz nonsense'') init_state) = Inr unknown \<and>
   intent_cache (snd (get_intent offline (ustr ''xyz nonsense'') init_state)) = Map.empty"
proof -
  have h: "fst (load_model offline (init_state :: unit state)) = Inr None"
    by (simp add: offline_def eval_defs)
  have a: "fst (get_intent offline (ustr ''Quero fazer um dep'' @ [243] @ ustr ''sito'') init_state) = Inr deposito"
    by (simp add: offline_def eval_defs keywords_dict_def label_defs)
  have b: "fst (get_intent offline (ustr ''xyz nonsense'') init_state) = Inr unknown"
    by (simp add: offline_def eval_defs keywords_dict_def label_defs)
  from keyword_path_first_match [OF h, of "ustr ''xyz nonsense''"]
  have "intent_cache (snd (get_intent offline (ustr ''xyz nonsense'') init_state)) =
          intent_cache (init_state :: unit state)"
    by auto
  then show ?thesis using h a b by (simp add: init_state_def)
qed

section \<open>Claim C9: triggers match as substrings, in rule order\<close>

lemma nomatch_eval:
  "(\<forall>w\<in>set ws. \<not> sublist w q) \<longleftrightarrow> \<not> list_ex (\<lambda>w. contains w q) ws"
  by (simp add: list_ex_iff contains_iff_sublist)

text \<open>
  C9: on the keyword path a trigger matches when it occurs anywhere in the normalised query,
  as a block between any two strings \<open>ps\<close> and \<open>ss\<close>, a longer word included. So a query
  with \<open>card\<close> inside it resolves to \<open>cartao\<close>, unless a trigger of one of the two
  earlier labels occurs in it as well; and in general a trigger of the rule at position
  \<open>j\<close> gives a label at a position up to \<open>j\<close>: an earlier rule shadows a later one.
\<close>

theorem keyword_substring_match:
  assumes "fst (load_model env s) = Inr None"
  shows "(\<forall>w q. contains w q \<longleftrightarrow> (\<exists>ps ss. q = ps @ w @ ss)) \<and>
         ((\<exists>ps ss. strip (str_lower env q0) = ps @ ustr ''card'' @ ss) \<and>
          (\<forall>j<2. \<forall>w\<in>set (snd (keywords_dict ! j)). \<not> sublist w (strip (str_lower env q0)))
            \<longrightarrow> fst (get_intent env q0 s) = Inr cartao) \<and>
         (\<forall>j<length keywords_dict.
            (\<exists>w\<in>set (snd (keywords_dict ! j)). sublist w (strip (str_lower env q0)))
            \<longrightarrow> (\<exists>k\<le>j. fst (get_intent env q0 s) = Inr (intents ! k)))"
proof (intro conjI allI impI)
  fix w q :: ustring
  show "contains w q \<longleftrightarrow> (\<exists>ps ss. q = ps @ w @ ss)"
    by (simp add: contains_iff_sublist sublist_def)
next
  let ?q = "strip (str_lower env q0)"
  assume a: "(\<exists>ps ss. ?q = ps @ ustr ''card'' @ ss) \<and>
          (\<forall>j<2. \<forall>w\<in>set (snd (keywords_dict ! j)). \<not> sublist w ?q)"
  then have card: "contains (ustr ''card'') ?q"
    by (simp add: contains_iff_sublist sublist_def)
  have two: "(0::nat) < 2" "(1::nat) < 2" by simp_all
  from a two have "\<forall>w\<in>set (snd (keywords_dict ! 0)). \<not> sublist w ?q"
    and "\<forall>w\<in>set (snd (keywords_dict ! 1)). \<not> sublist w ?q"
    by blast+
  then have "\<forall>w\<in>set (snd (keywords_dict ! 0)). \<not> contains w ?q"
    and "\<forall>w\<in>set (snd (keywords_dict ! 1)). \<not> contains w ?q"
    by (simp_all only: contains_iff_sublist) 
  then have "keyword_scan keywords_dict ?q = cartao"
    using card by (simp add: keywords_dict_def)
  then show "fst (get_intent env q0 s) = Inr cartao"
    using assms by (simp add: get_intent_keyword)
next
  let ?q = "strip (str_lower env q0)"
  fix j
  assume j: "j < length keywords_dict"
    and hit: "\<exists>w\<in>set (snd (keywords_dict ! j)). sublist w ?q"
  have nth: "\<And>k. k < length keywords_dict \<Longrightarrow> fst (keywords_dict ! k) = intents ! k"
    using keyword_labels by (metis nth_map)
  from keyword_scan_first [of keywords_dict ?q] hit j
  obtain k where k: "k < length keywords_dict" "keyword_scan keywords_dict ?q = fst (keywords_dict ! k)"
    "\<forall>i<k. \<forall>w\<in>set (snd (keywords_dict ! i)). \<not> sublist w ?q"
    by blast
  have "k \<le> j"
  proof (rule ccontr)
    assume "\<not> k \<le> j"
    then have "j < k" by simp
    then show False using k(3) hit by blast
  qed
  moreover have "fst (get_intent env q0 s) = Inr (intents ! k)"
    using assms k(1,2) nth by (simp add: get_intent_keyword)
  ultimately show "\<exists>k\<le>j. fst (get_intent env q0 s) = Inr (intents ! k)" by blast
qed

theorem keyword_substring_match_witness:
  "fst (load_model offline init_state) = Inr None \<and>
   strip (str_lower offline (ustr ''Discard pile'')) = ustr ''dis'' @ ustr ''card'' @ ustr '' pile'' \<and>
   fst (get_intent offline (ustr ''Discard pile'') init_state) = Inr cartao \<and>
   fst (get_intent offline (ustr ''saldo do card'') init_state) = Inr saldo"
proof -
  have h: "fst (load_model offline (init_state :: unit state)) = Inr None"
    by (simp add: offline_def eval_defs)
  have n: "strip (str_lower offline (ustr ''Discard pile'')) = ustr ''dis'' @ ustr ''card'' @ ustr '' pile''"
    by (simp add: offline_def eval_defs ustr_def)
  have free: "\<forall>j<2. \<forall>w\<in>set (snd (keywords_dict ! j)).
       \<not> sublist w (strip (str_lower offline (ustr ''Discard pile'')))"
    unfolding n
    by (simp add: less_2_cases_iff nomatch_eval keywords_dict_def label_defs)
  have a: "fst (get_intent offline (ustr ''Discard pile'') init_state) = Inr cartao"
    using keyword_substring_match [OF h, of "ustr ''Discard pile''"] n free by blast
  have b: "fst (get_intent offline (ustr ''saldo do card'') init_state) = Inr saldo"
    by (simp add: offline_def eval_defs keywords_dict_def label_defs)
  show ?thesis using h n a b by simp
qed

section \<open>Claim C2: the semantic path picks the first maximum above the threshold\<close>

lemma unknown_not_intent: "unknown \<notin> set intents"
  by (simp add: intents_def label_defs)

lemma intents_nonempty: "intents \<noteq> []"
  by (simp add: intents_def)

text \<open>
  A semantic-path call that meets no exception: the loop ends with a best score \<open>b'\<close> and
  label \<open>l'\<close>, the threshold decides, and the decision is stored.
\<close>

lemma semantic_decision:
  assumes sem: "fst (load_model env s) = Inr (Some m)"
    and miss: "intent_cache s (strip (str_lower env q0)) = None"
    and imp: "import_util env = Inr ()"
    and enc: "encode env m (strip (str_lower env q0)) = Inr qe"
    and ok: "\<forall>l\<in>set intents. encode env m l = Inr (emb l) \<and> cos_sim env qe (emb l) = Inr (sc l)"
  shows "\<exists>b' l'.
           fst (get_intent env q0 s) = Inr (if b' > 62 / 100 then l' else unknown) \<and>
           intent_cache (snd (get_intent env q0 s)) (strip (str_lower env q0)) =
             Some (if b' > 62 / 100 then l' else unknown) \<and>
           (\<forall>l\<in>set intents. sc l \<le> b') \<and>
           (- 1 < b' \<longrightarrow> (\<exists>k<length intents. intents ! k = l' \<and> sc l' = b' \<and>
                 (\<forall>j<k. sc (intents ! j) < b')))"
proof -
  let ?q = "strip (str_lower env q0)"
  let ?s1 = "snd (load_model env s)"
  let ?s2 = "emit (Encode ?q) ?s1"
  have m1: "model ?s1 = Some m" using sem by (rule load_model_returns_global)
  obtain b' l' where r: "fst (score_loop env m qe intents (- 1, unknown) ?s2) = Inr (b', l')"
    and ub: "\<forall>l\<in>set intents. sc l \<le> b'"
    and pos: "- 1 < b' \<longrightarrow> (\<exists>k<length intents. intents ! k = l' \<and> sc l' = b' \<and>
                 (\<forall>j<k. sc (intents ! j) < b'))"
    using score_loop_best [OF ok, of "- 1" unknown ?s2] by blast
  obtain s3 where sl: "score_loop env m qe intents (- 1, unknown) ?s2 = (Inr (b', l'), s3)"
    using r by (cases "score_loop env m qe intents (- 1, unknown) ?s2") simp
  let ?res = "if b' > 62 / 100 then l' else unknown"
  have sm: "semantic env ?q ?s1 = (Inr ?res, s3\<lparr>intent_cache := (intent_cache s3)(?q \<mapsto> ?res)\<rparr>)"
    using imp enc sl by (simp add: semantic_loaded [OF m1])
  have gi: "get_intent env q0 s = (Inr ?res, s3\<lparr>intent_cache := (intent_cache s3)(?q \<mapsto> ?res)\<rparr>)"
    using get_intent_miss [OF sem miss] sm by simp
  have "fst (get_intent env q0 s) = Inr ?res" using gi by simp
  moreover have "intent_cache (snd (get_intent env q0 s)) ?q = Some ?res" using gi by simp
  ultimately show ?thesis using ub pos by blast
qed

text \<open>
  C2: on the semantic path (the model is available, the normalised query is not cached, and
  neither the imports nor any encoding or scoring raises; \<open>sc l\<close> is the similarity of label
  \<open>l\<close> to the query) there is a position \<open>k\<close> in \<open>intents\<close> whose score is the largest and
  strictly larger than every score before it, the first maximum, and \<open>get_intent\<close> returns the
  label at \<open>k\<close> if and only if its score is strictly greater than 0.62, and \<open>'unknown'\<close>
  otherwise (so also at exactly 0.62). The returned value is what the cache then holds for
  the query.
\<close>

theorem semantic_first_maximum:
  assumes sem: "fst (load_model env s) = Inr (Some m)"
    and miss: "intent_cache s (strip (str_lower env q0)) = None"
    and imp: "import_util env = Inr ()"
    and enc: "encode env m (strip (str_lower env q0)) = Inr qe"
    and ok: "\<forall>l\<in>set intents. encode env m l = Inr (emb l) \<and> cos_sim env qe (emb l) = Inr (sc l)"
  shows "\<exists>k<length intents.
           (\<forall>j<length intents. sc (intents ! j) \<le> sc (intents ! k)) \<and>
           (\<forall>j<k. sc (intents ! j) < sc (intents ! k)) \<and>
           fst (get_intent env q0 s) =
             Inr (if sc (intents ! k) > 62 / 100 then intents ! k else unknown) \<and>
           (fst (get_intent env q0 s) = Inr (intents ! k) \<longleftrightarrow> sc (intents ! k) > 62 / 100) \<and>
           intent_cache (snd (get_intent env q0 s)) (strip (str_lower env q0)) =
             Some (if sc (intents ! k) > 62 / 100 then intents ! k else unknown)"
proof -
  let ?q = "strip (str_lower env q0)"
  obtain b' l' where
    res: "fst (get_intent env q0 s) = Inr (if b' > 62 / 100 then l' else unknown)"
    and st: "intent_cache (snd (get_intent env q0 s)) ?q = Some (if b' > 62 / 100 then l' else unknown)"
    and ub: "\<forall>l\<in>set intents. sc l \<le> b'"
    and pos: "- 1 < b' \<longrightarrow> (\<exists>k<length intents. intents ! k = l' \<and> sc l' = b' \<and>
                 (\<forall>j<k. sc (intents ! j) < b'))"
    using semantic_decision [OF sem miss imp enc ok] by blast
  show ?thesis
  proof (cases "b' > 62 / 100")
    case True
    then have "- 1 < b'" by simp
    then obtain k where k: "k < length intents" "intents ! k = l'" "sc l' = b'"
      "\<forall>j<k. sc (intents ! j) < b'"
      using pos by blast
    have "\<forall>j<length intents. sc (intents ! j) \<le> sc (intents ! k)"
      using ub k(2,3) by simp
    moreover have "\<forall>j<k. sc (intents ! j) < sc (intents ! k)"
      using k(2,3,4) by simp
    moreover have "sc (intents ! k) > 62 / 100" using True k(2,3) by simp
    moreover have "(if b' > 62 / 100 then l' else unknown) = intents ! k" using True k(2) by simp
    ultimately show ?thesis using res st k(1) by (intro exI [of _ k]) simp
  next
    case False
    obtain k where k: "k < length intents"
      "\<forall>j<length intents. sc (intents ! j) \<le> sc (intents ! k)"
      "\<forall>j<k. sc (intents ! j) < sc (intents ! k)"
      using first_argmax [OF intents_nonempty, of sc] by blast
    have "intents ! k \<in> set intents" using k(1) by simp
    then have "sc (intents ! k) \<le> b'" using ub by blast
    then have low: "\<not> sc (intents ! k) > 62 / 100" using False by simp
    have "intents ! k \<noteq> unknown"
      using \<open>intents ! k \<in> set intents\<close> unknown_not_intent by metis
    then show ?thesis using res st k low False by (intro exI [of _ k]) auto
  qed
qed

theorem semantic_first_maximum_witness:
  "fst (load_model tie_world init_state) = Inr (Some ()) \<and>
   intent_cache (init_state :: unit state) (strip (str_lower tie_world (ustr ''Hello''))) = None \<and>
   import_util tie_world = Inr () \<and>
   encode tie_world () (strip (str_lower tie_world (ustr ''Hello''))) = Inr (ustr ''hello'') \<and>
   list_all (\<lambda>l. encode tie_world () l = Inr l \<and>
       cos_sim tie_world (ustr ''hello'') l = Inr (tie_score l)) intents \<and>
   (\<exists>k<length intents.
       (\<forall>j<length intents. tie_score (intents ! j) \<le> tie_score (intents ! k)) \<and>
       (\<forall>j<k. tie_score (intents ! j) < tie_score (intents ! k)) \<and>
       fst (get_intent tie_world (ustr ''Hello'') init_state) =
         Inr (if tie_score (intents ! k) > 62 / 100 then intents ! k else unknown)) \<and>
   fst (get_intent tie_world (ustr ''Hello'') init_state) = Inr saldo \<and>
   fst (get_intent (const_sim (62 / 100)) (ustr ''Hello'') init_state) = Inr unknown \<and>
   fst (get_intent (const_sim (6201 / 10000)) (ustr ''Hello'') init_state) = Inr deposito"
proof -
  have sem: "fst (load_model tie_world (init_state :: unit state)) = Inr (Some ())"
    by (simp add: tie_world_def eval_defs)
  have miss: "intent_cache (init_state :: unit state) (strip (str_lower tie_world (ustr ''Hello''))) = None"
    by (simp add: init_state_def)
  have imp: "import_util tie_world = Inr ()"
    by (simp add: tie_world_def world_def)
  have enc: "encode tie_world () (strip (str_lower tie_world (ustr ''Hello''))) = Inr (ustr ''hello'')"
    by (simp add: tie_world_def world_def strip_def latin1_lower_def isspace_def ustr_def)
  have ok: "\<forall>l\<in>set intents. encode tie_world () l = Inr ((\<lambda>l. l) l) \<and>
       cos_sim tie_world (ustr ''hello'') ((\<lambda>l. l) l) = Inr (tie_score l)"
    by (simp add: tie_world_def world_def)
  have ex: "\<exists>k<length intents.
       (\<forall>j<length intents. tie_score (intents ! j) \<le> tie_score (intents ! k)) \<and>
       (\<forall>j<k. tie_score (intents ! j) < tie_score (intents ! k)) \<and>
       fst (get_intent tie_world (ustr ''Hello'') init_state) =
         Inr (if tie_score (intents ! k) > 62 / 100 then intents ! k else unknown)"
    using semantic_first_maximum [OF sem miss imp enc ok] by blast
  have a: "fst (get_intent tie_world (ustr ''Hello'') init_state) = Inr saldo"
    by (simp add: tie_world_def tie_score_def eval_defs label_defs)
  have b: "fst (get_intent (const_sim (62 / 100)) (ustr ''Hello'') init_state) = Inr unknown"
    by (simp add: const_sim_def eval_defs label_defs)
  have c: "fst (get_intent (const_sim (6201 / 10000)) (ustr ''Hello'') init_state) = Inr deposito"
    by (simp add: const_sim_def eval_defs label_defs)
  have ok': "list_all (\<lambda>l. encode tie_world () l = Inr l \<and>
       cos_sim tie_world (ustr ''hello'') l = Inr (tie_score l)) intents"
    using ok by (simp add: list_all_iff)
  show ?thesis by (intro conjI; fact)
qed

section \<open>Claim C4: a stored decision is replayed\<close>

lemma get_intent_after_load:
  assumes "fst (load_model env s) = Inr (Some m)"
  shows "get_intent env q0 s = get_intent env q0 (snd (load_model env s))"
proof -
  obtain s1 where lm: "load_model env s = (Inr (Some m), s1)"
    using assms by (cases "load_model env s") simp
  have "model s1 = Some m" using load_model_returns_global [OF assms] lm by simp
  then have "load_model env s1 = (Inr (Some m), s1)" by (rule load_model_loaded)
  then show ?thesis using lm by (simp add: get_intent_def)
qed

lemma get_intent_model_after_load:
  assumes "fst (load_model env s) = Inr (Some m)"
  shows "model (snd (get_intent env q0 s)) = Some m"
proof -
  have "model (snd (load_model env s)) = Some m"
    using assms by (rule load_model_returns_global)
  then have "model (snd (get_intent env q0 (snd (load_model env s)))) = Some m"
    by (rule get_intent_model)
  then show ?thesis using get_intent_after_load [OF assms] by simp
qed

text \<open>
  C4: if a call of \<open>get_intent\<close> stored a decision \<open>l\<close> for a normalised query that was not
  cached before, then it returned \<open>l\<close>, and after any further calls \<open>cs\<close> every call whose
  query normalises to the same string returns \<open>l\<close> and leaves the whole state as it was,
  the trace included: nothing is constructed, encoded or scored. \<open>l\<close> may be \<open>'unknown'\<close>.
\<close>

theorem cached_decision_replayed:
  assumes before: "intent_cache s (strip (str_lower env q0)) = None"
    and stored: "intent_cache (snd (get_intent env q0 s)) (strip (str_lower env q0)) = Some l"
    and same: "strip (str_lower env' q1) = strip (str_lower env q0)"
  shows "fst (get_intent env q0 s) = Inr l \<and>
         get_intent env' q1 (run_calls cs (snd (get_intent env q0 s))) =
           (Inr l, run_calls cs (snd (get_intent env q0 s)))"
proof -
  let ?q = "strip (str_lower env q0)"
  let ?s' = "snd (get_intent env q0 s)"
  have "intent_cache ?s' \<noteq> intent_cache s" using before stored by auto
  then obtain l' m where av: "fst (load_model env s) = Inr (Some m)"
    and res: "fst (get_intent env q0 s) = Inr l'"
    and upd: "intent_cache ?s' = (intent_cache s)(?q \<mapsto> l')"
    using get_intent_cache_effect [of env q0 s] by blast
  have ll: "l' = l" using upd stored by simp
  have "model ?s' = Some m" using av by (rule get_intent_model_after_load)
  then have m: "model (run_calls cs ?s') = Some m" by (rule run_calls_model)
  have "intent_cache (run_calls cs ?s') ?q = Some l" using stored by (rule run_calls_keeps_entry)
  then have "intent_cache (run_calls cs ?s') (strip (str_lower env' q1)) = Some l"
    using same by simp
  with m have "get_intent env' q1 (run_calls cs ?s') = (Inr l, run_calls cs ?s')"
    by (rule get_intent_hit)
  then show ?thesis using res ll by simp
qed

theorem cached_decision_replayed_witness:
  "intent_cache (init_state :: unit state)
     (strip (str_lower (const_sim (62 / 100)) (ustr ''Hello''))) = None \<and>
   intent_cache (snd (get_intent (const_sim (62 / 100)) (ustr ''Hello'') init_state))
     (strip (str_lower (const_sim (62 / 100)) (ustr ''Hello''))) = Some unknown \<and>
   strip (str_lower (const_sim (9 / 10)) (ustr '' hello '')) =
     strip (str_lower (const_sim (62 / 100)) (ustr ''Hello'')) \<and>
   get_intent (const_sim (9 / 10)) (ustr '' hello '')
       (run_calls [(tie_world, ustr ''saldo?'')]
          (snd (get_intent (const_sim (62 / 100)) (ustr ''Hello'') init_state))) =
     (Inr unknown,
      run_calls [(tie_world, ustr ''saldo?'')]
        (snd (get_intent (const_sim (62 / 100)) (ustr ''Hello'') init_state)))"
proof -
  have before: "intent_cache (init_state :: unit state)
      (strip (str_lower (const_sim (62 / 100)) (ustr ''Hello''))) = None"
    by (simp add: init_state_def)
  have stored: "intent_cache (snd (get_intent (const_sim (62 / 100)) (ustr ''Hello'') init_state))
     (strip (str_lower (const_sim (62 / 100)) (ustr ''Hello''))) = Some unknown"
    by (simp add: const_sim_def eval_defs label_defs)
  have same: "strip (str_lower (const_sim (9 / 10)) (ustr '' hello '')) =
     strip (str_lower (const_sim (62 / 100)) (ustr ''Hello''))"
    by (simp add: const_sim_def world_def strip_def latin1_lower_def isspace_def ustr_def)
  have replay: "get_intent (const_sim (9 / 10)) (ustr '' hello '')
       (run_calls [(tie_world, ustr ''saldo?'')]
          (snd (get_intent (const_sim (62 / 100)) (ustr ''Hello'') init_state))) =
     (Inr unknown,
      run_calls [(tie_world, ustr ''saldo?'')]
        (snd (get_intent (const_sim (62 / 100)) (ustr ''Hello'') init_state)))"
    using cached_decision_replayed [OF before stored same, of "[(tie_world, ustr ''saldo?'')]"]
    by blast
  show ?thesis by (intro conjI; fact)
qed

section \<open>Failing calls\<close>

lemma score_loop_fails:
  assumes "\<exists>l\<in>set ls. encode env m l = Inl e \<or>
             (\<exists>le. encode env m l = Inr le \<and> cos_sim env qe le = Inl e)"
  shows "\<exists>e'. fst (score_loop env m qe ls best s) = Inl e'"
  using assms
proof (induction ls arbitrary: best s)
  case Nil
  then show ?case by simp
next
  case (Cons x xs)
  show ?case
  proof (cases "encode env m x")
    case (Inl e1)
    then show ?thesis by (simp add: Let_def)
  next
    case (Inr ie)
    show ?thesis
    proof (cases "cos_sim env qe ie")
      case (Inl e1)
      then show ?thesis using Inr by (simp add: Let_def)
    next
      case sc: (Inr score)
      have "\<exists>l\<in>set xs. encode env m l = Inl e \<or>
             (\<exists>le. encode env m l = Inr le \<and> cos_sim env qe le = Inl e)"
        using Cons.prems Inr sc by auto
      then have "\<exists>e'. fst (score_loop env m qe xs
           (if score > fst best then (score, x) else best)
           (emit CosSim (emit (Encode x) s))) = Inl e'"
        by (rule Cons.IH)
      then show ?thesis using Inr sc by (simp add: Let_def)
    qed
  qed
qed

text \<open>
  A semantic-path call in which an encoding or a scoring raises: the \<open>try\<close> block is left by
  an exception that the world raised, the cache and the model are those the call found, and
  the call returns \<open>'unknown'\<close> if that exception can be caught and logged.
\<close>

lemma failing_call:
  assumes sem: "fst (load_model env s) = Inr (Some m)"
    and miss: "intent_cache s (strip (str_lower env q0)) = None"
    and fail: "encode env m (strip (str_lower env q0)) = Inl e \<or>
       (\<exists>qe. encode env m (strip (str_lower env q0)) = Inr qe \<and>
          (\<exists>l\<in>set intents. encode env m l = Inl e \<or>
             (\<exists>le. encode env m l = Inr le \<and> cos_sim env qe le = Inl e)))"
  shows "\<exists>e' s2. semantic env (strip (str_lower env q0)) (snd (load_model env s)) = (Inl e', s2) \<and>
           raises env e' \<and> get_intent env q0 s = handler e' s2 \<and>
           intent_cache (snd (get_intent env q0 s)) = intent_cache s \<and>
           model (snd (get_intent env q0 s)) = Some m"
proof -
  let ?q = "strip (str_lower env q0)"
  let ?s1 = "snd (load_model env s)"
  have m1: "model ?s1 = Some m" using sem by (rule load_model_returns_global)
  have c1: "intent_cache ?s1 = intent_cache s" by (rule load_model_cache)
  have "\<exists>e'. fst (semantic env ?q ?s1) = Inl e'"
  proof (cases "import_util env")
    case (Inl e1)
    then show ?thesis by (simp add: semantic_loaded [OF m1])
  next
    case iu: (Inr u)
    show ?thesis
    proof (cases "encode env m ?q")
      case (Inl e1)
      then show ?thesis using iu by (simp add: semantic_loaded [OF m1])
    next
      case (Inr qe)
      then have "\<exists>l\<in>set intents. encode env m l = Inl e \<or>
             (\<exists>le. encode env m l = Inr le \<and> cos_sim env qe le = Inl e)"
        using fail by auto
      then have "\<exists>e'. fst (score_loop env m qe intents (- 1, unknown)
          (emit (Encode ?q) ?s1)) = Inl e'"
        by (rule score_loop_fails)
      then obtain e' where "fst (score_loop env m qe intents (- 1, unknown)
          (emit (Encode ?q) ?s1)) = Inl e'" ..
      then show ?thesis
        using iu Inr
        by (cases "score_loop env m qe intents (- 1, unknown) (emit (Encode ?q) ?s1)")
           (simp add: semantic_loaded [OF m1])
    qed
  qed
  then obtain e' s2 where sm: "semantic env ?q ?s1 = (Inl e', s2)"
    by (cases "semantic env ?q ?s1") auto
  have r: "raises env e'" using semantic_raises [OF m1, of env ?q e'] sm by simp
  have gi: "get_intent env q0 s = handler e' s2"
    using get_intent_miss [OF sem miss] sm by simp
  have "intent_cache s2 = intent_cache ?s1"
    using semantic_outcome [OF m1, of env ?q] sm by auto
  then have c: "intent_cache (snd (get_intent env q0 s)) = intent_cache s"
    using gi c1 by (simp add: handler_cache)
  have mm: "model (snd (get_intent env q0 s)) = Some m"
    using sem by (rule get_intent_model_after_load)
  show ?thesis using sm r gi c mm by blast
qed

lemma semantic_trace:
  assumes "model s = Some m" and "import_util env = Inr u"
  shows "\<exists>rest. trace (snd (semantic env q s)) = trace s @ Encode q # rest"
proof (cases "encode env m q")
  case (Inl e)
  then show ?thesis using assms(2) by (simp add: semantic_loaded [OF assms(1)] emit_def)
next
  case (Inr qe)
  let ?s2 = "emit (Encode q) s"
  obtain r s3 where sl: "score_loop env m qe intents (- 1, unknown) ?s2 = (r, s3)"
    by (cases "score_loop env m qe intents (- 1, unknown) ?s2")
  have "prefix (trace ?s2) (trace s3)"
    using score_loop_trace_prefix [of ?s2 env m qe intents "(- 1, unknown)"] sl by simp
  then obtain zs where "trace s3 = trace ?s2 @ zs" by (auto simp add: prefix_def)
  then have t3: "trace s3 = trace s @ Encode q # zs" by (simp add: emit_def)
  show ?thesis
    using assms(2) Inr sl t3
    by (cases r) (simp_all add: semantic_loaded [OF assms(1)] split: prod.split)
qed

section \<open>Claim C10: the handler's result is not stored\<close>

text \<open>
  C10: after a semantic-path call in which an encoding or a scoring raised, the cache has no
  entry for the normalised query, so the \<open>'unknown'\<close> of the handler is not replayed: a later call
  with a query that normalises to the same string, in any world where the imports succeed,
  goes through the \<open>try\<close> block again and starts by encoding the query.
\<close>

theorem errors_not_cached:
  assumes sem: "fst (load_model env s) = Inr (Some m)"
    and miss: "intent_cache s (strip (str_lower env q0)) = None"
    and fail: "encode env m (strip (str_lower env q0)) = Inl e \<or>
       (\<exists>qe. encode env m (strip (str_lower env q0)) = Inr qe \<and>
          (\<exists>l\<in>set intents. encode env m l = Inl e \<or>
             (\<exists>le. encode env m l = Inr le \<and> cos_sim env qe le = Inl e)))"
    and same: "strip (str_lower env' q1) = strip (str_lower env q0)"
    and imp': "import_util env' = Inr ()"
  shows "intent_cache (snd (get_intent env q0 s)) (strip (str_lower env q0)) = None \<and>
         (\<exists>rest. trace (snd (get_intent env' q1 (snd (get_intent env q0 s)))) =
            trace (snd (get_intent env q0 s)) @ Encode (strip (str_lower env q0)) # rest)"
proof -
  let ?q = "strip (str_lower env q0)"
  let ?s' = "snd (get_intent env q0 s)"
  have c: "intent_cache ?s' = intent_cache s" and m: "model ?s' = Some m"
    using failing_call [OF sem miss fail] by auto
  have absent: "intent_cache ?s' ?q = None" using c miss by simp
  have lm: "load_model env' ?s' = (Inr (Some m), ?s')" using m by (rule load_model_loaded)
  obtain x s2 where sm: "semantic env' ?q ?s' = (x, s2)" by (cases "semantic env' ?q ?s'")
  obtain rest where t2: "trace s2 = trace ?s' @ Encode ?q # rest"
    using semantic_trace [OF m imp', of ?q] sm by auto
  have "fst (load_model env' ?s') = Inr (Some m)" using lm by simp
  moreover have "intent_cache ?s' (strip (str_lower env' q1)) = None" using absent same by simp
  ultimately have "get_intent env' q1 ?s' =
      (case semantic env' (strip (str_lower env' q1)) (snd (load_model env' ?s')) of
         (Inr label, s2) \<Rightarrow> (Inr label, s2)
       | (Inl e, s2) \<Rightarrow> handler e s2)"
    by (rule get_intent_miss)
  then have "prefix (trace s2) (trace (snd (get_intent env' q1 ?s')))"
    using sm lm same by (cases x) (simp_all add: handler_trace)
  then obtain zs where "trace (snd (get_intent env' q1 ?s')) = trace s2 @ zs"
    by (auto simp add: prefix_def)
  then have "\<exists>rest'. trace (snd (get_intent env' q1 ?s')) = trace ?s' @ Encode ?q # rest'"
    using t2 by simp
  then show ?thesis using absent by simp
qed

theorem errors_not_cached_witness:
  "fst (load_model (faulty fees) init_state) = Inr (Some ()) \<and>
   intent_cache (init_state :: unit state) (strip (str_lower (faulty fees) (ustr ''Boom''))) = None \<and>
   encode (faulty fees) () (strip (str_lower (faulty fees) (ustr ''Boom''))) = Inr (ustr ''boom'') \<and>
   fees \<in> set intents \<and> encode (faulty fees) () fees = Inl plain_error \<and>
   strip (str_lower (const_sim (9 / 10)) (ustr '' boom '')) =
     strip (str_lower (faulty fees) (ustr ''Boom'')) \<and>
   import_util (const_sim (9 / 10)) = Inr () \<and>
   intent_cache (snd (get_intent (faulty fees) (ustr ''Boom'') init_state))
     (strip (str_lower (faulty fees) (ustr ''Boom''))) = None \<and>
   (\<exists>rest. trace (snd (get_intent (const_sim (9 / 10)) (ustr '' boom '')
                (snd (get_intent (faulty fees) (ustr ''Boom'') init_state)))) =
      trace (snd (get_intent (faulty fees) (ustr ''Boom'') init_state)) @
        Encode (strip (str_lower (faulty fees) (ustr ''Boom''))) # rest) \<and>
   fst (get_intent (faulty fees) (ustr ''Boom'') init_state) = Inr unknown \<and>
   fst (get_intent (const_sim (9 / 10)) (ustr '' boom '')
          (snd (get_intent (faulty fees) (ustr ''Boom'') init_state))) = Inr deposito"
proof -
  let ?s = "init_state :: unit state"
  have sem: "fst (load_model (faulty fees) ?s) = Inr (Some ())"
    by (simp add: faulty_def eval_defs)
  have miss: "intent_cache ?s (strip (str_lower (faulty fees) (ustr ''Boom''))) = None"
    by (simp add: init_state_def)
  have enc: "encode (faulty fees) () (strip (str_lower (faulty fees) (ustr ''Boom''))) = Inr (ustr ''boom'')"
    by (simp add: faulty_def eval_defs label_defs)
  have mem: "fees \<in> set intents" by (simp add: intents_def)
  have bad: "encode (faulty fees) () fees = Inl plain_error"
    by (simp add: faulty_def raising_def world_def)
  have fail: "encode (faulty fees) () (strip (str_lower (faulty fees) (ustr ''Boom''))) = Inl plain_error \<or>
       (\<exists>qe. encode (faulty fees) () (strip (str_lower (faulty fees) (ustr ''Boom''))) = Inr qe \<and>
          (\<exists>l\<in>set intents. encode (faulty fees) () l = Inl plain_error \<or>
             (\<exists>le. encode (faulty fees) () l = Inr le \<and> cos_sim (faulty fees) qe le = Inl plain_error)))"
    using enc mem bad by blast
  have same: "strip (str_lower (const_sim (9 / 10)) (ustr '' boom '')) =
     strip (str_lower (faulty fees) (ustr ''Boom''))"
    by (simp add: const_sim_def faulty_def eval_defs ustr_def)
  have imp': "import_util (const_sim (9 / 10)) = Inr ()"
    by (simp add: const_sim_def world_def)
  have absent: "intent_cache (snd (get_intent (faulty fees) (ustr ''Boom'') init_state))
     (strip (str_lower (faulty fees) (ustr ''Boom''))) = None"
    using errors_not_cached [OF sem miss fail same imp'] by blast
  have again: "\<exists>rest. trace (snd (get_intent (const_sim (9 / 10)) (ustr '' boom '')
                (snd (get_intent (faulty fees) (ustr ''Boom'') init_state)))) =
      trace (snd (get_intent (faulty fees) (ustr ''Boom'') init_state)) @
        Encode (strip (str_lower (faulty fees) (ustr ''Boom''))) # rest"
    using errors_not_cached [OF sem miss fail same imp'] by blast
  have first: "fst (get_intent (faulty fees) (ustr ''Boom'') init_state) = Inr unknown"
    by (simp add: faulty_def eval_defs label_defs)
  have second: "fst (get_intent (const_sim (9 / 10)) (ustr '' boom '')
          (snd (get_intent (faulty fees) (ustr ''Boom'') init_state))) = Inr deposito"
    by (simp add: const_sim_def faulty_def eval_defs label_defs)
  show ?thesis by (intro conjI; fact)
qed

section \<open>Claim C3: what get\_intent returns, and when it returns\<close>

lemma keyword_scan_label: "keyword_scan rules q \<in> fst ` set rules \<union> {unknown}"
  by (induction rules q rule: keyword_scan.induct) auto

lemma get_intent_label:
  assumes ok: "cache_ok (intent_cache s)" and res: "fst (get_intent env q0 s) = Inr l"
  shows "l \<in> set intents \<union> {unknown}"
proof -
  let ?q = "strip (str_lower env q0)"
  obtain r s1 where lm: "load_model env s = (r, s1)" by (cases "load_model env s")
  show ?thesis
  proof (cases r)
    case (Inl e)
    then have "fst (get_intent env q0 s) = Inl e" using lm by (simp add: get_intent_def)
    then show ?thesis using res by simp
  next
    case (Inr mo)
    show ?thesis
    proof (cases mo)
      case None
      have "keyword_scan keywords_dict ?q \<in> fst ` set keywords_dict \<union> {unknown}"
        by (rule keyword_scan_label)
      moreover have "fst ` set keywords_dict = set intents"
        using keyword_labels by (metis set_map)
      moreover have "l = keyword_scan keywords_dict ?q"
        using lm Inr None res by (simp add: get_intent_keyword)
      ultimately show ?thesis by simp
    next
      case (Some m)
      have m1: "model s1 = Some m"
        using load_model_returns_global [of env s "Some m"] lm Inr Some by simp
      show ?thesis
      proof (cases "intent_cache s ?q")
        case hit: (Some c)
        have "intent_cache s1 = intent_cache s" using load_model_cache [of env s] lm by simp
        then have "fst (get_intent env q0 s) = Inr c"
          using lm Inr Some hit by (simp add: get_intent_def)
        then have "l = c" using res by simp
        moreover have "c \<in> ran (intent_cache s)" using hit by (auto simp add: ran_def)
        ultimately show ?thesis using ok by (auto simp add: cache_ok_def)
      next
        case None
        have gi: "get_intent env q0 s =
           (case semantic env ?q s1 of
              (Inr label, s2) \<Rightarrow> (Inr label, s2)
            | (Inl e, s2) \<Rightarrow> handler e s2)"
          using get_intent_miss [of env s m q0] lm Inr Some None by simp
        obtain x s2 where sem: "semantic env ?q s1 = (x, s2)" by (cases "semantic env ?q s1")
        show ?thesis
        proof (cases x)
          case (Inl e)
          then have "fst (handler e s2) = Inr l" using gi sem res by simp
          then have "l = unknown" by (rule handler_label)
          then show ?thesis by simp
        next
          case xr: (Inr l')
          then have "l' = l" using gi sem res by simp
          moreover have "l' \<in> set intents \<union> {unknown}"
            using semantic_outcome [OF m1, of env ?q] sem xr by auto
          ultimately show ?thesis by simp
        qed
      qed
    qed
  qed
qed

lemma get_intent_cache_ok:
  assumes "cache_ok (intent_cache s)"
  shows "cache_ok (intent_cache (snd (get_intent env q0 s)))"
proof -
  let ?q = "strip (str_lower env q0)"
  from get_intent_cache_effect [of env q0 s] show ?thesis
  proof
    assume "intent_cache (snd (get_intent env q0 s)) = intent_cache s"
    then show ?thesis using assms by simp
  next
    assume "intent_cache s ?q = None \<and> (\<exists>m. fst (load_model env s) = Inr (Some m)) \<and>
      (\<exists>l. fst (get_intent env q0 s) = Inr l \<and> l \<in> set intents \<union> {unknown} \<and>
         intent_cache (snd (get_intent env q0 s)) = (intent_cache s)(?q \<mapsto> l))"
    then obtain l where none: "intent_cache s ?q = None" and l: "l \<in> set intents \<union> {unknown}"
      and upd: "intent_cache (snd (get_intent env q0 s)) = (intent_cache s)(?q \<mapsto> l)"
      by blast
    have "ran ((intent_cache s)(?q \<mapsto> l)) = insert l (ran (intent_cache s))"
      using none by (rule ran_map_upd)
    then show ?thesis using assms l upd by (simp add: cache_ok_def)
  qed
qed

lemma run_calls_cache_ok:
  "cache_ok (intent_cache s) \<Longrightarrow> cache_ok (intent_cache (run_calls cs s))"
  by (induction cs arbitrary: s) (auto simp add: get_intent_cache_ok)

text \<open>
  C3 says that \<open>get_intent\<close> never raises. It does: an exception outside class
  \<open>Exception\<close> raised while the query is encoded passes the \<open>except Exception\<close> clause, and
  an \<open>Exception\<close> of the model's construction whose \<open>__str__\<close> raises makes the handler of
  \<open>load_model\<close> raise while it formats the log line, at line 49, outside any \<open>try\<close>.
\<close>

theorem get_intent_raises_counterexample:
  "fst (get_intent (raising interrupt (ustr ''hi'')) (ustr ''Hi'') init_state) = Inl interrupt \<and>
   fst (get_intent (unloadable unprintable) (ustr ''saldo'') init_state) = Inl plain_error"
  by (simp add: eval_defs label_defs)

text \<open>
  C3 as amended: in every state the program can reach (any sequence of earlier calls of
  \<open>get_intent\<close> from the freshly imported module, each in a world of its own), and for
  every query and world, a value that \<open>get_intent\<close> returns is one of the eight labels or
  \<open>'unknown'\<close>; and if every exception the world raises (constructing the model, importing,
  encoding, scoring) is an instance of \<open>Exception\<close> that can be formatted, then
  \<open>get_intent\<close> does return such a value and raises nothing.
\<close>

theorem get_intent_returns_label:
  "(\<forall>l. fst (get_intent env q0 (run_calls cs init_state)) = Inr l \<longrightarrow>
        l \<in> set intents \<union> {unknown}) \<and>
   (tame env \<longrightarrow>
      (\<exists>l s'. get_intent env q0 (run_calls cs init_state) = (Inr l, s') \<and>
         l \<in> set intents \<union> {unknown}))"
proof -
  have "cache_ok (intent_cache (init_state :: 'a state))"
    by (simp add: cache_ok_def init_state_def)
  then have inv: "cache_ok (intent_cache (run_calls cs (init_state :: 'a state)))"
    by (rule run_calls_cache_ok)
  have lab: "\<forall>l. fst (get_intent env q0 (run_calls cs init_state)) = Inr l \<longrightarrow>
        l \<in> set intents \<union> {unknown}"
    using get_intent_label [OF inv] by blast
  have "tame env \<longrightarrow>
      (\<exists>l s'. get_intent env q0 (run_calls cs init_state) = (Inr l, s') \<and>
         l \<in> set intents \<union> {unknown})"
  proof
    assume "tame env"
    then obtain l where l: "fst (get_intent env q0 (run_calls cs init_state)) = Inr l"
      using get_intent_returns by blast
    then have "l \<in> set intents \<union> {unknown}" using lab by blast
    then show "\<exists>l s'. get_intent env q0 (run_calls cs init_state) = (Inr l, s') \<and>
         l \<in> set intents \<union> {unknown}"
      using l by (cases "get_intent env q0 (run_calls cs init_state)") auto
  qed
  then show ?thesis using lab by blast
qed

lemma tame_raising_plain: "tame (raising plain_error bad)"
  by (auto simp add: tame_def raises_def raising_def world_def catchable_def plain_error_def
      split: if_splits)

lemma tame_const_sim: "tame (const_sim r)"
  by (auto simp add: tame_def raises_def const_sim_def world_def)

lemma tame_offline: "tame offline"
  by (auto simp add: tame_def raises_def offline_def unloadable_def world_def catchable_def
      plain_error_def)

theorem get_intent_returns_label_witness:
  "tame (const_sim (9 / 10)) \<and>
   (\<exists>l s'. get_intent (const_sim (9 / 10)) (ustr ''hi'')
        (run_calls [(offline, ustr ''saldo''), (faulty fees, ustr ''boom'')] init_state) = (Inr l, s') \<and>
      l \<in> set intents \<union> {unknown}) \<and>
   run_results [(offline, ustr ''saldo''), (faulty fees, ustr ''boom''),
                (const_sim (9 / 10), ustr ''hi'')] (init_state :: unit state) =
     [Inr saldo, Inr unknown, Inr deposito]"
proof -
  have t: "tame (const_sim (9 / 10))" by (rule tame_const_sim)
  have a: "\<exists>l s'. get_intent (const_sim (9 / 10)) (ustr ''hi'')
        (run_calls [(offline, ustr ''saldo''), (faulty fees, ustr ''boom'')] init_state) = (Inr l, s') \<and>
      l \<in> set intents \<union> {unknown}"
    using get_intent_returns_label
      [of "const_sim (9 / 10)" "ustr ''hi''" "[(offline, ustr ''saldo''), (faulty fees, ustr ''boom'')]"] t
    by blast
  have b: "run_results [(offline, ustr ''saldo''), (faulty fees, ustr ''boom''),
                (const_sim (9 / 10), ustr ''hi'')] (init_state :: unit state) =
     [Inr saldo, Inr unknown, Inr deposito]"
    by (simp add: offline_def faulty_def const_sim_def eval_defs keywords_dict_def label_defs)
  show ?thesis by (intro conjI; fact)
qed

section \<open>Claim C7: a failing call leaves the cache alone\<close>

text \<open>
  C7 says that a semantic-path call in which embedding or scoring throws returns
  \<open>'unknown'\<close>. Not always: when scoring a label raises an exception outside class
  \<open>Exception\<close> the clause of line 97 does not catch it, and when encoding the query raises
  an \<open>Exception\<close> whose \<open>__str__\<close> raises, \<open>str(e)\<close> of line 98 raises inside the handler;
  in both calls an exception reaches the caller.
\<close>

theorem failure_propagates_counterexample:
  "fst (load_model (unscorable interrupt fees) init_state) = Inr (Some ()) \<and>
   cos_sim (unscorable interrupt fees) (ustr ''boom'') fees = Inl interrupt \<and>
   fst (get_intent (unscorable interrupt fees) (ustr ''Boom'') init_state) = Inl interrupt \<and>
   encode (raising unprintable (ustr ''boom'')) () (ustr ''boom'') = Inl unprintable \<and>
   fst (get_intent (raising unprintable (ustr ''boom'')) (ustr ''Boom'') init_state) = Inl plain_error"
  by (simp add: eval_defs label_defs)

text \<open>
  C7 as amended: in a semantic-path call (the model is available and the normalised query is
  not cached) in which encoding the query raises, or encoding a label or scoring it against
  the query raises, \<open>_intent_cache\<close> after the call is exactly the cache before it, whether
  the exception is handled or reaches the caller: nothing is added, changed or removed. And
  if every exception the world raises is an instance of \<open>Exception\<close> that can be formatted,
  the call returns \<open>'unknown'\<close> to its caller.
\<close>

theorem failure_leaves_cache:
  assumes sem: "fst (load_model env s) = Inr (Some m)"
    and miss: "intent_cache s (strip (str_lower env q0)) = None"
    and fail: "encode env m (strip (str_lower env q0)) = Inl e \<or>
       (\<exists>qe. encode env m (strip (str_lower env q0)) = Inr qe \<and>
          (\<exists>l\<in>set intents. encode env m l = Inl e \<or>
             (\<exists>le. encode env m l = Inr le \<and> cos_sim env qe le = Inl e)))"
  shows "intent_cache (snd (get_intent env q0 s)) = intent_cache s \<and>
         (tame env \<longrightarrow> get_intent env q0 s = (Inr unknown, snd (get_intent env q0 s)))"
proof -
  obtain e' s2 where r: "raises env e'" and gi: "get_intent env q0 s = handler e' s2"
    and c: "intent_cache (snd (get_intent env q0 s)) = intent_cache s"
    using failing_call [OF sem miss fail] by blast
  have "tame env \<longrightarrow> get_intent env q0 s = (Inr unknown, snd (get_intent env q0 s))"
  proof
    assume "tame env"
    then have "catchable e'" using r by (simp add: tame_def)
    then show "get_intent env q0 s = (Inr unknown, snd (get_intent env q0 s))"
      using gi by (simp add: handler_catchable)
  qed
  then show ?thesis using c by simp
qed

theorem failure_leaves_cache_witness:
  "fst (load_model (faulty fees) (snd (get_intent (const_sim (9 / 10)) (ustr ''hello'') init_state))) =
     Inr (Some ()) \<and>
   intent_cache (snd (get_intent (const_sim (9 / 10)) (ustr ''hello'') init_state))
     (strip (str_lower (faulty fees) (ustr ''Boom''))) = None \<and>
   encode (faulty fees) () (strip (str_lower (faulty fees) (ustr ''Boom''))) = Inr (ustr ''boom'') \<and>
   fees \<in> set intents \<and> encode (faulty fees) () fees = Inl plain_error \<and>
   tame (faulty fees) \<and>
   fst (get_intent (faulty fees) (ustr ''Boom'')
          (snd (get_intent (const_sim (9 / 10)) (ustr ''hello'') init_state))) = Inr unknown \<and>
   intent_cache (snd (get_intent (faulty fees) (ustr ''Boom'')
          (snd (get_intent (const_sim (9 / 10)) (ustr ''hello'') init_state)))) =
     intent_cache (snd (get_intent (const_sim (9 / 10)) (ustr ''hello'') init_state)) \<and>
   intent_cache (snd (get_intent (const_sim (9 / 10)) (ustr ''hello'') init_state)) (ustr ''hello'') =
     Some deposito"
proof -
  let ?s = "snd (get_intent (const_sim (9 / 10)) (ustr ''hello'') init_state)"
  have sem: "fst (load_model (faulty fees) ?s) = Inr (Some ())"
    by (simp add: const_sim_def faulty_def eval_defs label_defs)
  have miss: "intent_cache ?s (strip (str_lower (faulty fees) (ustr ''Boom''))) = None"
    by (simp add: const_sim_def faulty_def eval_defs label_defs)
  have enc: "encode (faulty fees) () (strip (str_lower (faulty fees) (ustr ''Boom''))) = Inr (ustr ''boom'')"
    by (simp add: faulty_def eval_defs label_defs)
  have mem: "fees \<in> set intents" by (simp add: intents_def)
  have bad: "encode (faulty fees) () fees = Inl plain_error"
    by (simp add: faulty_def raising_def world_def)
  have fail: "encode (faulty fees) () (strip (str_lower (faulty fees) (ustr ''Boom''))) = Inl plain_error \<or>
       (\<exists>qe. encode (faulty fees) () (strip (str_lower (faulty fees) (ustr ''Boom''))) = Inr qe \<and>
          (\<exists>l\<in>set intents. encode (faulty fees) () l = Inl plain_error \<or>
             (\<exists>le. encode (faulty fees) () l = Inr le \<and> cos_sim (faulty fees) qe le = Inl plain_error)))"
    using enc mem bad by blast
  have tm: "tame (faulty fees)" unfolding faulty_def by (rule tame_raising_plain)
  have res: "fst (get_intent (faulty fees) (ustr ''Boom'') ?s) = Inr unknown"
    using failure_leaves_cache [OF sem miss fail] tm by (metis fst_conv)
  have same: "intent_cache (snd (get_intent (faulty fees) (ustr ''Boom'') ?s)) = intent_cache ?s"
    using failure_leaves_cache [OF sem miss fail] by blast
  have kept: "intent_cache ?s (ustr ''hello'') = Some deposito"
    by (simp add: const_sim_def eval_defs label_defs)
  show ?thesis by (intro conjI; fact)
qed

section \<open>Claim C6: the empty query\<close>

text \<open>
  From the outcome of the loop to the first maximum: the label the threshold decides on is
  the one at the first position of largest score.
\<close>

lemma decision_first_maximum:
  fixes sc :: "ustring \<Rightarrow> rat"
  assumes ub: "\<forall>l\<in>set intents. sc l \<le> b'"
    and pos: "- 1 < b' \<longrightarrow> (\<exists>k<length intents. intents ! k = l' \<and> sc l' = b' \<and>
                 (\<forall>j<k. sc (intents ! j) < b'))"
  shows "\<exists>k<length intents.
           (\<forall>j<length intents. sc (intents ! j) \<le> sc (intents ! k)) \<and>
           (\<forall>j<k. sc (intents ! j) < sc (intents ! k)) \<and>
           (if b' > 62 / 100 then l' else unknown) =
             (if sc (intents ! k) > 62 / 100 then intents ! k else unknown)"
proof (cases "b' > 62 / 100")
  case True
  then have "- 1 < b'" by simp
  then obtain k where k: "k < length intents" "intents ! k = l'" "sc l' = b'"
    "\<forall>j<k. sc (intents ! j) < b'"
    using pos by blast
  have "\<forall>j<length intents. sc (intents ! j) \<le> sc (intents ! k)"
    using ub k(2,3) by simp
  moreover have "\<forall>j<k. sc (intents ! j) < sc (intents ! k)"
    using k(2,3,4) by simp
  moreover have "(if b' > 62 / 100 then l' else unknown) =
             (if sc (intents ! k) > 62 / 100 then intents ! k else unknown)"
    using True k(2,3) by simp
  ultimately show ?thesis using k(1) by blast
next
  case False
  obtain k where k: "k < length intents"
    "\<forall>j<length intents. sc (intents ! j) \<le> sc (intents ! k)"
    "\<forall>j<k. sc (intents ! j) < sc (intents ! k)"
    using first_argmax [OF intents_nonempty, of sc] by blast
  have "intents ! k \<in> set intents" using k(1) by simp
  then have "sc (intents ! k) \<le> b'" using ub by blast
  then have "\<not> sc (intents ! k) > 62 / 100" using False by simp
  then have "(if b' > 62 / 100 then l' else unknown) =
             (if sc (intents ! k) > 62 / 100 then intents ! k else unknown)"
    using False by simp
  then show ?thesis using k by blast
qed

text \<open>
  C6 says that a query that is empty after normalisation yields \<open>'unknown'\<close> on both paths.
  On the semantic path the source scores the empty string like any other text, so the answer
  is the provider's: where every similarity is 0.9 a query of two blanks resolves to the first
  label.
\<close>

theorem empty_query_counterexample:
  "strip (str_lower (const_sim (9 / 10)) (ustr ''  '')) = [] \<and>
   fst (get_intent (const_sim (9 / 10)) (ustr ''  '') init_state) = Inr deposito \<and>
   deposito \<noteq> unknown"
  by (simp add: const_sim_def eval_defs label_defs)

text \<open>
  C6 as amended: a query that is empty after normalisation is not rejected, and
  \<open>get_intent\<close> returns a value for it whenever every exception the world raises is an
  instance of \<open>Exception\<close> that can be formatted. On the keyword path the value is
  \<open>'unknown'\<close>. On the semantic path it is the cached decision for the empty string if there
  is one; otherwise, when nothing raises, the empty string is scored like any other query:
  the value is the label at the first position of largest similarity to the empty string if
  that similarity exceeds 0.62, and \<open>'unknown'\<close> if it does not.
\<close>

theorem empty_query_resolved_normally:
  assumes empty: "strip (str_lower env q0) = []"
  shows "(tame env \<longrightarrow> (\<exists>l. fst (get_intent env q0 s) = Inr l)) \<and>
         (fst (load_model env s) = Inr None \<longrightarrow> fst (get_intent env q0 s) = Inr unknown) \<and>
         (fst (load_model env s) = Inr (Some m) \<and> intent_cache s [] = Some c
            \<longrightarrow> fst (get_intent env q0 s) = Inr c) \<and>
         (fst (load_model env s) = Inr (Some m) \<and> intent_cache s [] = None \<and>
          import_util env = Inr () \<and> encode env m [] = Inr qe \<and>
          (\<forall>l\<in>set intents. encode env m l = Inr (emb l) \<and> cos_sim env qe (emb l) = Inr (sc l))
          \<longrightarrow> (\<exists>k<length intents.
                 (\<forall>j<length intents. sc (intents ! j) \<le> sc (intents ! k)) \<and>
                 (\<forall>j<k. sc (intents ! j) < sc (intents ! k)) \<and>
                 fst (get_intent env q0 s) =
                   Inr (if sc (intents ! k) > 62 / 100 then intents ! k else unknown)))"
proof (intro conjI impI)
  assume "tame env"
  then show "\<exists>l. fst (get_intent env q0 s) = Inr l" by (rule get_intent_returns)
next
  assume "fst (load_model env s) = Inr None"
  then have "fst (get_intent env q0 s) = Inr (keyword_scan keywords_dict [])"
    using empty by (simp add: get_intent_keyword)
  moreover have "keyword_scan keywords_dict [] = unknown"
    by (simp add: keywords_dict_def label_defs)
  ultimately show "fst (get_intent env q0 s) = Inr unknown" by simp
next
  assume a: "fst (load_model env s) = Inr (Some m) \<and> intent_cache s [] = Some c"
  let ?s1 = "snd (load_model env s)"
  have lm: "fst (load_model env s) = Inr (Some m)" using a by simp
  have m1: "model ?s1 = Some m" using lm by (rule load_model_returns_global)
  have "intent_cache ?s1 (strip (str_lower env q0)) = Some c"
    using a empty by (simp add: load_model_cache)
  with m1 have "get_intent env q0 ?s1 = (Inr c, ?s1)" by (rule get_intent_hit)
  then show "fst (get_intent env q0 s) = Inr c"
    using get_intent_after_load [OF lm, of q0] by simp
next
  assume a: "fst (load_model env s) = Inr (Some m) \<and> intent_cache s [] = None \<and>
          import_util env = Inr () \<and> encode env m [] = Inr qe \<and>
          (\<forall>l\<in>set intents. encode env m l = Inr (emb l) \<and> cos_sim env qe (emb l) = Inr (sc l))"
  then have sem: "fst (load_model env s) = Inr (Some m)"
    and miss: "intent_cache s (strip (str_lower env q0)) = None"
    and imp: "import_util env = Inr ()"
    and enc: "encode env m (strip (str_lower env q0)) = Inr qe"
    and ok: "\<forall>l\<in>set intents. encode env m l = Inr (emb l) \<and> cos_sim env qe (emb l) = Inr (sc l)"
    using empty by simp_all
  obtain b' l' where
    res: "fst (get_intent env q0 s) = Inr (if b' > 62 / 100 then l' else unknown)"
    and ub: "\<forall>l\<in>set intents. sc l \<le> b'"
    and pos: "- 1 < b' \<longrightarrow> (\<exists>k<length intents. intents ! k = l' \<and> sc l' = b' \<and>
                 (\<forall>j<k. sc (intents ! j) < b'))"
    using semantic_decision [OF sem miss imp enc ok] by blast
  show "\<exists>k<length intents.
           (\<forall>j<length intents. sc (intents ! j) \<le> sc (intents ! k)) \<and>
           (\<forall>j<k. sc (intents ! j) < sc (intents ! k)) \<and>
           fst (get_intent env q0 s) =
             Inr (if sc (intents ! k) > 62 / 100 then intents ! k else unknown)"
    using decision_first_maximum [OF ub pos] res by auto
qed

theorem empty_query_resolved_normally_witness:
  "strip (str_lower offline (ustr ''   '')) = [] \<and>
   tame offline \<and>
   fst (load_model offline init_state) = Inr None \<and>
   fst (get_intent offline (ustr ''   '') init_state) = Inr unknown \<and>
   strip (str_lower (const_sim (1 / 2)) (ustr ''   '')) = [] \<and>
   fst (load_model (const_sim (1 / 2)) init_state) = Inr (Some ()) \<and>
   intent_cache (init_state :: unit state) [] = None \<and>
   import_util (const_sim (1 / 2)) = Inr () \<and>
   encode (const_sim (1 / 2)) () [] = Inr [] \<and>
   list_all (\<lambda>l. encode (const_sim (1 / 2)) () l = Inr l \<and>
       cos_sim (const_sim (1 / 2)) [] l = Inr (1 / 2)) intents \<and>
   fst (get_intent (const_sim (1 / 2)) (ustr ''   '') init_state) = Inr unknown \<and>
   fst (load_model (const_sim (1 / 2))
          (snd (get_intent (const_sim (9 / 10)) [] init_state))) = Inr (Some ()) \<and>
   intent_cache (snd (get_intent (const_sim (9 / 10)) [] init_state)) [] = Some deposito \<and>
   fst (get_intent (const_sim (1 / 2)) (ustr ''   '')
          (snd (get_intent (const_sim (9 / 10)) [] init_state))) = Inr deposito"
proof -
  have e1: "strip (str_lower offline (ustr ''   '')) = []"
    by (simp add: offline_def eval_defs ustr_def)
  have t1: "tame offline" by (rule tame_offline)
  have k1: "fst (load_model offline (init_state :: unit state)) = Inr None"
    by (simp add: offline_def eval_defs)
  have r1: "fst (get_intent offline (ustr ''   '') init_state) = Inr unknown"
    using empty_query_resolved_normally [OF e1, of init_state] k1 by blast
  have e2: "strip (str_lower (const_sim (1 / 2)) (ustr ''   '')) = []"
    by (simp add: const_sim_def eval_defs ustr_def)
  have sem: "fst (load_model (const_sim (1 / 2)) (init_state :: unit state)) = Inr (Some ())"
    by (simp add: const_sim_def eval_defs)
  have miss: "intent_cache (init_state :: unit state) [] = None"
    by (simp add: init_state_def)
  have imp: "import_util (const_sim (1 / 2)) = Inr ()"
    by (simp add: const_sim_def world_def)
  have enc: "encode (const_sim (1 / 2)) () [] = Inr []"
    by (simp add: const_sim_def world_def)
  have ok: "\<forall>l\<in>set intents. encode (const_sim (1 / 2)) () l = Inr ((\<lambda>l. l) l) \<and>
       cos_sim (const_sim (1 / 2)) [] ((\<lambda>l. l) l) = Inr ((\<lambda>l. 1 / 2) l)"
    by (simp add: const_sim_def world_def)
  have "\<exists>k<length intents. fst (get_intent (const_sim (1 / 2)) (ustr ''   '') init_state) =
       Inr (if (\<lambda>l. 1 / 2 :: rat) (intents ! k) > 62 / 100 then intents ! k else unknown)"
    using empty_query_resolved_normally [OF e2, of init_state "()" _ "[]" "\<lambda>l. l" "\<lambda>l. 1 / 2"]
      sem miss imp enc ok by blast
  then have r2: "fst (get_intent (const_sim (1 / 2)) (ustr ''   '') init_state) = Inr unknown"
    by auto
  have ok': "list_all (\<lambda>l. encode (const_sim (1 / 2)) () l = Inr l \<and>
       cos_sim (const_sim (1 / 2)) [] l = Inr (1 / 2)) intents"
    using ok by (simp add: list_all_iff)
  let ?s = "snd (get_intent (const_sim (9 / 10)) [] (init_state :: unit state))"
  have sem3: "fst (load_model (const_sim (1 / 2)) ?s) = Inr (Some ())"
    by (simp add: const_sim_def eval_defs label_defs)
  have hit: "intent_cache ?s [] = Some deposito"
    by (simp add: const_sim_def eval_defs label_defs)
  have r3: "fst (get_intent (const_sim (1 / 2)) (ustr ''   '') ?s) = Inr deposito"
    using empty_query_resolved_normally [OF e2, of ?s "()" deposito] sem3 hit by blast
  show ?thesis by (intro conjI; fact)
qed

end
